theory Spec2Isabelle
  imports Main "HOL-Library.Sublist"
begin

section \<open>Strings and character classes\<close>

text \<open>
  The docstring parser of \<^verbatim>\<open>gdocstr/parse.py\<close> and the query resolver of
  \<^verbatim>\<open>gdocstr/docstring.py\<close> work on Python 3 strings. A string is modelled as a
  \<^typ>\<open>string\<close>, one \<^typ>\<open>char\<close> per code point, so the model covers the code points
  below 256. The character classes are those of Python 3 on that range:
  \<^verbatim>\<open>\s\<close> and \<^verbatim>\<open>str.strip\<close> use \<^verbatim>\<open>str.isspace\<close>, \<^verbatim>\<open>\w\<close> is an alphanumeric
  character or the underscore.
\<close>

definition nl :: char where
  "nl = CHR 0x0A"

definition is_space :: "char \<Rightarrow> bool" where
  "is_space c = (let n = (of_char c :: nat)
                 in (9 \<le> n \<and> n \<le> 13) \<or> (28 \<le> n \<and> n \<le> 32) \<or> n = 133 \<or> n = 160)"

definition is_word :: "char \<Rightarrow> bool" where
  "is_word c = (let n = (of_char c :: nat)
                in (48 \<le> n \<and> n \<le> 57) \<or> (65 \<le> n \<and> n \<le> 90) \<or> n = 95
                   \<or> (97 \<le> n \<and> n \<le> 122) \<or> n = 170 \<or> n = 178 \<or> n = 179 \<or> n = 181
                   \<or> n = 185 \<or> n = 186 \<or> (188 \<le> n \<and> n \<le> 190)
                   \<or> (192 \<le> n \<and> n \<le> 214) \<or> (216 \<le> n \<and> n \<le> 246) \<or> 248 \<le> n)"

definition isupper :: "char \<Rightarrow> bool" where
  "isupper c = (let n = (of_char c :: nat)
                in (65 \<le> n \<and> n \<le> 90) \<or> (192 \<le> n \<and> n \<le> 214) \<or> (216 \<le> n \<and> n \<le> 222))"

definition islower :: "char \<Rightarrow> bool" where
  "islower c = (let n = (of_char c :: nat)
                in (97 \<le> n \<and> n \<le> 122) \<or> n = 170 \<or> n = 181 \<or> n = 186
                   \<or> (223 \<le> n \<and> n \<le> 246) \<or> 248 \<le> n)"

text \<open>
  \<^verbatim>\<open>s.split(sep)\<close> for a separator of one character: the pieces between the
  separators; the empty string gives one empty piece.
\<close>

fun split_chr :: "char \<Rightarrow> string \<Rightarrow> string list" where
  "split_chr sep [] = [[]]"
| "split_chr sep (c # cs) =
     (if c = sep then [] # split_chr sep cs
      else (case split_chr sep cs of [] \<Rightarrow> [[c]] | l # ls \<Rightarrow> (c # l) # ls))"

definition split_nl :: "string \<Rightarrow> string list" where
  "split_nl s = split_chr nl s"

text \<open>\<^verbatim>\<open>'\n'.join(xs)\<close>.\<close>

fun join_nl :: "string list \<Rightarrow> string" where
  "join_nl [] = []"
| "join_nl [x] = x"
| "join_nl (x # y # ys) = x @ nl # join_nl (y # ys)"

text \<open>\<^verbatim>\<open>s.strip()\<close>: leading and trailing whitespace removed.\<close>

definition strip :: "string \<Rightarrow> string" where
  "strip s = rev (dropWhile is_space (rev (dropWhile is_space s)))"

section \<open>The regular expressions of the default configuration\<close>

text \<open>
  \<^verbatim>\<open>GoogleDocString.__init__\<close> without a \<^verbatim>\<open>config\<close> (the only way the factory
  \<^verbatim>\<open>parser\<close> builds it) sets the header keywords, \<^verbatim>\<open>indent = 4\<close>,
  \<^verbatim>\<open>delimiter = ':'\<close> and \<^verbatim>\<open>arg_delimiter = ': '\<close>.
\<close>

definition headers :: "string list" where
  "headers = [''Args'', ''Arguments'', ''Returns'', ''Yields'', ''Raises'', ''Note'',
              ''Notes'', ''Example'', ''Examples'', ''Attributes'', ''Todo'']"

definition config_indent :: nat where
  "config_indent = 4"

text \<open>
  \<^verbatim>\<open>_compile_indent\<close> is \<^verbatim>\<open>(^\s{4,})\<close>. \<^verbatim>\<open>findall\<close> gives the greedy run of
  whitespace at the start of the line when it has at least four characters, and nothing
  otherwise; \<^verbatim>\<open>_get_indent\<close> returns its length, or 0.
\<close>

definition get_indent :: "string \<Rightarrow> nat" where
  "get_indent line =
     (let indent_size = takeWhile is_space line
      in if config_indent \<le> length indent_size then length indent_size else 0)"

definition is_indent :: "string \<Rightarrow> bool" where
  "is_indent line = (let indent = get_indent line in indent > 0)"

text \<open>
  \<^verbatim>\<open>_compile_header\<close> is \<^verbatim>\<open>^\s*(Args|Arguments|...|Todo):\s*\<close>, anchored at the start
  of the string. After the leading whitespace the alternatives are tried in order, each
  followed by the colon; \<^verbatim>\<open>findall\<close> returns the keyword of the only possible match.
  Fewer leading whitespace characters cannot help, since no keyword starts with one.
\<close>

definition header_findall :: "string \<Rightarrow> string option" where
  "header_findall line =
     find (\<lambda>k. prefix (k @ '':'') (dropWhile is_space line)) headers"

definition is_header :: "string \<Rightarrow> bool" where
  "is_header line = (header_findall line \<noteq> None)"

definition get_header :: "string \<Rightarrow> string" where
  "get_header line = (case header_findall line of Some header \<Rightarrow> header | None \<Rightarrow> [])"

text \<open>
  \<^verbatim>\<open>_compile_arg\<close> is \<^verbatim>\<open>(\w*)\s*(\(.*\))?\s*: (.*)\<close>. \<^verbatim>\<open>_parse_arglist\<close> uses only
  whether \<^verbatim>\<open>findall\<close> found something and the three groups of its first element, so
  \<open>get_arg\<close> returns the groups of the leftmost match.

  \<open>match_delim\<close> is the tail \<^verbatim>\<open>\s*: (.*)\<close>: the whitespace run is taken whole (a shorter
  one leaves a whitespace character where the colon must be), and the dot stops at a
  line feed.
\<close>

definition match_delim :: "string \<Rightarrow> string option" where
  "match_delim s =
     (case dropWhile is_space s of
        c1 # c2 # rest \<Rightarrow>
          if c1 = CHR '':'' \<and> c2 = CHR '' '' then Some (takeWhile (\<lambda>c. c \<noteq> nl) rest)
          else None
      | _ \<Rightarrow> None)"

text \<open>
  \<open>match_paren body k\<close> is the group \<^verbatim>\<open>\(.*\)\<close> after its opening parenthesis, with the
  greedy \<^verbatim>\<open>.*\<close> holding \<open>k\<close> characters: the closing parenthesis has to be at index
  \<open>k\<close> and the tail has to match after it; otherwise the dot gives one character back.
\<close>

fun match_paren :: "string \<Rightarrow> nat \<Rightarrow> (string \<times> string) option" where
  "match_paren body 0 =
     (if 0 < length body \<and> body ! 0 = CHR '')''
      then (case match_delim (drop 1 body) of
              Some d \<Rightarrow> Some (CHR ''('' # take 1 body, d) | None \<Rightarrow> None)
      else None)"
| "match_paren body (Suc k) =
     (case (if Suc k < length body \<and> body ! Suc k = CHR '')''
            then (case match_delim (drop (Suc k + 1) body) of
                    Some d \<Rightarrow> Some (CHR ''('' # take (Suc k + 1) body, d) | None \<Rightarrow> None)
            else None) of
        Some r \<Rightarrow> Some r
      | None \<Rightarrow> match_paren body k)"

text \<open>
  \<open>match_sig\<close> is \<^verbatim>\<open>(\(.*\))?\s*: (.*)\<close>: the optional group is tried first, and left
  out (an empty string in the result of \<^verbatim>\<open>findall\<close>) when no closing parenthesis works.
\<close>

definition match_sig :: "string \<Rightarrow> (string \<times> string) option" where
  "match_sig s =
     (case (case s of
              [] \<Rightarrow> None
            | c # body \<Rightarrow>
                if c = CHR ''('' then match_paren body (length (takeWhile (\<lambda>c. c \<noteq> nl) body))
                else None) of
        Some r \<Rightarrow> Some r
      | None \<Rightarrow> (case match_delim s of Some d \<Rightarrow> Some ([], d) | None \<Rightarrow> None))"

text \<open>
  A match that starts at the head of \<open>s\<close>. \<^verbatim>\<open>\w*\<close> and the first \<^verbatim>\<open>\s*\<close> take their
  whole runs: a shorter run leaves a word or whitespace character where only a
  parenthesis, whitespace or the colon can follow.
\<close>

definition match_arg_at :: "string \<Rightarrow> (string \<times> string \<times> string) option" where
  "match_arg_at s =
     (case match_sig (dropWhile is_space (dropWhile is_word s)) of
        Some (sg, d) \<Rightarrow> Some (takeWhile is_word s, sg, d)
      | None \<Rightarrow> None)"

text \<open>The search for the leftmost match: every start position, from the left.\<close>

fun get_arg :: "string \<Rightarrow> (string \<times> string \<times> string) option" where
  "get_arg [] = match_arg_at []"
| "get_arg (c # cs) =
     (case match_arg_at (c # cs) of Some r \<Rightarrow> Some r | None \<Rightarrow> get_arg cs)"

section \<open>The parser object\<close>

text \<open>
  The exceptions the two modules can raise. \<open>NameError\<close> is what the
  \<^verbatim>\<open>require\<close> branch of \<^verbatim>\<open>_parse_arglist\<close> raises: its message names a variable
  \<^verbatim>\<open>section\<close> that does not exist there.
\<close>

datatype error =
    SyntaxError string
  | ValueError string
  | NotImplementedError string
  | NameError string
  | IndexError

text \<open>One entry of \<^verbatim>\<open>args\<close>: the dictionary that \<^verbatim>\<open>_parse_arglist\<close> returns.\<close>

record arg_entry =
  arg_field :: string
  arg_signature :: string
  arg_description :: string

text \<open>The dictionary \<^verbatim>\<open>out\<close> that \<^verbatim>\<open>parse_section\<close> returns.\<close>

record parsed_section =
  out_header :: string
  out_text :: string
  out_args :: "arg_entry list"

text \<open>
  The fields of a \<^verbatim>\<open>GoogleDocString\<close> object that parsing reads or writes:
  \<^verbatim>\<open>docstring\<close>, \<^verbatim>\<open>data\<close>, \<^verbatim>\<open>_section\<close>, \<^verbatim>\<open>_indent\<close>, \<^verbatim>\<open>_linenum\<close> and
  \<^verbatim>\<open>_sections\<close>.
\<close>

record GoogleDocString =
  docstring :: string
  data :: "parsed_section list"
  priv_section :: "string list"
  priv_indent :: nat
  priv_linenum :: nat
  priv_sections :: "string list"

text \<open>\<^verbatim>\<open>GoogleDocString(docstring)\<close>: the object as \<^verbatim>\<open>__init__\<close> leaves it.\<close>

definition init :: "string \<Rightarrow> GoogleDocString" where
  "init doc = \<lparr>docstring = doc, data = [], priv_section = [], priv_indent = 0,
                priv_linenum = 0, priv_sections = []\<rparr>"

section \<open>Section segmentation\<close>

text \<open>
  \<^verbatim>\<open>_get_next_line\<close>: the next line that is not empty, or the empty string past the
  last line. The loop compares \<^verbatim>\<open>inc\<close> with the number of lines by equality, so a
  start beyond the end reads out of range.
\<close>

function get_next_line_loop :: "string list \<Rightarrow> nat \<Rightarrow> error + string" where
  "get_next_line_loop lines inc =
     (if inc = length lines then Inr []
      else if length lines < inc then Inl IndexError
      else if lines ! inc \<noteq> [] then Inr (lines ! inc)
      else get_next_line_loop lines (inc + 1))"
  by pat_completeness auto
termination
  by (relation "measure (\<lambda>(lines, inc). length lines - inc)") auto

declare get_next_line_loop.simps [simp del]

definition get_next_line :: "string list \<Rightarrow> nat \<Rightarrow> error + string" where
  "get_next_line lines ln = get_next_line_loop lines (ln + 1)"

definition err_if_missing_indent :: "string list \<Rightarrow> nat \<Rightarrow> error + unit" where
  "err_if_missing_indent lines ln =
     (case get_next_line lines ln of
        Inl e \<Rightarrow> Inl e
      | Inr next_line \<Rightarrow>
          (let is_next_indent = is_indent next_line
           in if \<not> is_next_indent
              then Inl (SyntaxError (''Missing indent after `'' @ next_line @ ''`''))
              else Inr ()))"

definition begin_section :: "GoogleDocString \<Rightarrow> GoogleDocString" where
  "begin_section self = self\<lparr>priv_section := [], priv_indent := 0\<rparr>"

definition end_section :: "GoogleDocString \<Rightarrow> GoogleDocString" where
  "end_section self =
     (let section_text = join_nl (priv_section self)
      in if strip section_text \<noteq> []
         then self\<lparr>priv_sections := priv_sections self @ [section_text]\<rparr>
         else self)"

text \<open>
  The last statement of the loop body of \<^verbatim>\<open>extract_sections\<close>:
  \<^verbatim>\<open>self._section.append(line[self._indent:])\<close>.
\<close>

definition append_line :: "string \<Rightarrow> GoogleDocString \<Rightarrow> GoogleDocString" where
  "append_line line self =
     self\<lparr>priv_section := priv_section self @ [drop (priv_indent self) line]\<rparr>"

text \<open>
  One pass through the body of the \<^verbatim>\<open>for\<close> loop of \<^verbatim>\<open>extract_sections\<close>, on the
  local flag \<^verbatim>\<open>new_section\<close> and the object.
\<close>

definition extract_step ::
  "string list \<Rightarrow> nat \<Rightarrow> string \<Rightarrow> bool \<times> GoogleDocString \<Rightarrow> error + (bool \<times> GoogleDocString)"
where
  "extract_step lines ln line s =
     (let current_indent = get_indent line;
          (new_section, self) =
             (if fst s \<and> is_indent line
              then (False, (snd s)\<lparr>priv_indent := current_indent\<rparr>)
              else s)
      in if is_header line
         then (case err_if_missing_indent lines ln of
                 Inl e \<Rightarrow> Inl e
               | Inr _ \<Rightarrow> Inr (True, append_line line (begin_section (end_section self))))
         else if line \<noteq> [] \<and> current_indent < priv_indent self
         then Inr (new_section, append_line line (begin_section (end_section self)))
         else Inr (new_section, append_line line self))"

fun extract_loop ::
  "string list \<Rightarrow> (nat \<times> string) list \<Rightarrow> bool \<times> GoogleDocString \<Rightarrow> error + (bool \<times> GoogleDocString)"
where
  "extract_loop lines [] s = Inr s"
| "extract_loop lines ((ln, line) # rest) s =
     (case extract_step lines ln line s of
        Inl e \<Rightarrow> Inl e
      | Inr s' \<Rightarrow> extract_loop lines rest s')"

definition extract_sections :: "GoogleDocString \<Rightarrow> error + GoogleDocString" where
  "extract_sections self =
     (let lines = split_nl (docstring self)
      in case extract_loop lines (enumerate 0 lines) (True, self) of
           Inl e \<Rightarrow> Inl e
         | Inr (new_section, self') \<Rightarrow> Inr (begin_section (end_section self')))"

section \<open>Parsing one section\<close>

text \<open>
  The \<^verbatim>\<open>while\<close> loop of \<^verbatim>\<open>_parse_arglist\<close>, on the cursor \<^verbatim>\<open>self._linenum\<close> and the
  list \<^verbatim>\<open>description\<close>.
\<close>

function arglist_loop :: "string list \<Rightarrow> nat \<Rightarrow> string list \<Rightarrow> error + (nat \<times> string list)" where
  "arglist_loop lines linenum description =
     (case get_next_line lines linenum of
        Inl e \<Rightarrow> Inl e
      | Inr next_line \<Rightarrow>
          if is_indent next_line
          then (if linenum + 1 < length lines
                then arglist_loop lines (linenum + 1) (description @ [lines ! (linenum + 1)])
                else Inl IndexError)
          else Inr (linenum, description))"
  by pat_completeness auto
termination
  by (relation "measure (\<lambda>(lines, linenum, description). length lines - linenum)") auto

declare arglist_loop.simps [simp del]

text \<open>
  \<^verbatim>\<open>_parse_arglist\<close> returns \<^verbatim>\<open>None\<close> or the dictionary of one argument, and moves
  the cursor; the model returns the new cursor with the result.
\<close>

definition parse_arglist ::
  "string list \<Rightarrow> bool \<Rightarrow> nat \<Rightarrow> error + (arg_entry option \<times> nat)"
where
  "parse_arglist lines require linenum =
     (if length lines \<le> linenum then Inl IndexError
      else (case get_arg (lines ! linenum) of
              None \<Rightarrow> if require then Inl (NameError ''section'') else Inr (None, linenum)
            | Some (g1, g2, g3) \<Rightarrow>
                (case arglist_loop lines linenum [g3] of
                   Inl e \<Rightarrow> Inl e
                 | Inr (linenum', description) \<Rightarrow>
                     Inr (Some \<lparr>arg_field = g1, arg_signature = g2,
                                 arg_description = join_nl description\<rparr>, linenum'))))"

lemma arglist_loop_cursor:
  "arglist_loop lines linenum description = Inr (linenum', description') \<Longrightarrow> linenum \<le> linenum'"
proof (induction lines linenum description rule: arglist_loop.induct)
  case (1 lines linenum description)
  show ?case
  proof (cases "get_next_line lines linenum")
    case (Inl e)
    with "1.prems" show ?thesis by (subst (asm) arglist_loop.simps) simp
  next
    case (Inr next_line)
    show ?thesis
    proof (cases "is_indent next_line \<and> linenum + 1 < length lines")
      case True
      with Inr "1.prems" have "arglist_loop lines (linenum + 1) (description @ [lines ! (linenum + 1)]) = Inr (linenum', description')"
        by (subst (asm) arglist_loop.simps) simp
      from "1.IH"[OF Inr _ _ this] True have "linenum + 1 \<le> linenum'" by simp
      then show ?thesis by simp
    next
      case False
      with Inr "1.prems" show ?thesis
        by (subst (asm) arglist_loop.simps) (auto split: if_splits)
    qed
  qed
qed

lemma parse_arglist_cursor:
  "parse_arglist lines require linenum = Inr (arg_data, linenum') \<Longrightarrow> linenum \<le> linenum'"
  by (auto simp: parse_arglist_def split: if_splits option.splits sum.splits
           dest: arglist_loop_cursor)

text \<open>
  The \<^verbatim>\<open>while\<close> loop of \<^verbatim>\<open>parse_section\<close>, on the cursor and the lists \<^verbatim>\<open>text\<close>
  and \<^verbatim>\<open>args\<close>. The dictionary of an argument is never empty, so \<^verbatim>\<open>if arg_data\<close>
  asks whether \<^verbatim>\<open>_parse_arglist\<close> returned one.
\<close>

function parse_loop ::
  "string list \<Rightarrow> nat \<Rightarrow> string list \<Rightarrow> arg_entry list
     \<Rightarrow> error + (nat \<times> string list \<times> arg_entry list)"
where
  "parse_loop lines linenum txt args =
     (if linenum < length lines
      then (case parse_arglist lines False linenum of
              Inl e \<Rightarrow> Inl e
            | Inr (arg_data, linenum') \<Rightarrow>
                (case arg_data of
                   Some a \<Rightarrow> parse_loop lines (linenum' + 1) txt (args @ [a])
                 | None \<Rightarrow>
                     if linenum' < length lines
                     then parse_loop lines (linenum' + 1) (txt @ [lines ! linenum']) args
                     else Inl IndexError))
      else Inr (linenum, txt, args))"
  by pat_completeness auto
termination
  by (relation "measure (\<lambda>(lines, linenum, txt, args). length lines - linenum)")
     (auto dest: parse_arglist_cursor)

declare parse_loop.simps [simp del]

text \<open>
  \<^verbatim>\<open>parse_section\<close>. The cursor starts at \<^verbatim>\<open>int(bool(header))\<close>: the first line of the
  section is skipped when it is a header.
\<close>

definition first_linenum :: "string list \<Rightarrow> nat" where
  "first_linenum lines = (let header = get_header (lines ! 0) in if header \<noteq> [] then 1 else 0)"

definition parse_section ::
  "string \<Rightarrow> GoogleDocString \<Rightarrow> error + (parsed_section \<times> GoogleDocString)"
where
  "parse_section sec self =
     (let lines = split_nl sec;
          header = get_header (lines ! 0)
      in case parse_loop lines (first_linenum lines) [] [] of
           Inl e \<Rightarrow> Inl e
         | Inr (linenum, txt, args) \<Rightarrow>
             Inr (\<lparr>out_header = header, out_text = join_nl txt, out_args = args\<rparr>,
                  self\<lparr>priv_linenum := linenum\<rparr>))"

section \<open>Parsing a docstring\<close>

text \<open>The \<^verbatim>\<open>for\<close> loop of \<^verbatim>\<open>DocString.parse\<close> over \<^verbatim>\<open>self._sections\<close>.\<close>

fun parse_all :: "string list \<Rightarrow> GoogleDocString \<Rightarrow> error + GoogleDocString" where
  "parse_all [] self = Inr self"
| "parse_all (sec # secs) self =
     (case parse_section sec self of
        Inl e \<Rightarrow> Inl e
      | Inr (out, self') \<Rightarrow> parse_all secs (self'\<lparr>data := data self' @ [out]\<rparr>))"

text \<open>\<^verbatim>\<open>DocString.parse\<close>: the returned list and the object after the call.\<close>

definition parse :: "GoogleDocString \<Rightarrow> error + (parsed_section list \<times> GoogleDocString)" where
  "parse self =
     (case extract_sections (self\<lparr>data := []\<rparr>) of
        Inl e \<Rightarrow> Inl e
      | Inr self1 \<Rightarrow>
          (case parse_all (priv_sections self1) self1 of
             Inl e \<Rightarrow> Inl e
           | Inr self2 \<Rightarrow> Inr (data self2, self2)))"

text \<open>
  The factory \<^verbatim>\<open>parser(obj, choice)\<close>. The dictionary \<^verbatim>\<open>parsers\<close> has the one key
  \<^verbatim>\<open>'Google'\<close>. In the other branch the exception object is built and dropped: the
  statement has no \<^verbatim>\<open>raise\<close>, and the function ends without a \<^verbatim>\<open>return\<close>, which
  gives \<^verbatim>\<open>None\<close>.
\<close>

definition parsers :: "string \<rightharpoonup> (string \<Rightarrow> GoogleDocString)" where
  "parsers = [''Google'' \<mapsto> init]"

definition parser :: "string \<Rightarrow> string \<Rightarrow> error + GoogleDocString option" where
  "parser obj choice =
     (case parsers choice of
        Some cls \<Rightarrow> Inr (Some (cls obj))
      | None \<Rightarrow>
          (let unused = NotImplementedError
                          (''The docstring parser `'' @ choice @ ''` is not implemented'')
           in Inr None))"

section \<open>Query resolution\<close>

text \<open>
  \<^verbatim>\<open>get_names\<close> of \<^verbatim>\<open>docstring.py\<close>: the tuple
  \<^verbatim>\<open>(classname, funcname, dtype)\<close>, or the \<^verbatim>\<open>ValueError\<close>.
\<close>

definition get_names :: "string \<Rightarrow> error + (string \<times> string \<times> string)" where
  "get_names query =
     (let members = split_chr (CHR ''.'') query
      in if length members = 1
         then (if members ! 0 = [] then Inr ([], [], ''module'')
               else if isupper (members ! 0 ! 0) then Inr (query, [], ''class'')
               else Inr ([], query, ''function''))
         else if length members = 2
         then Inr (members ! 0, members ! 1, ''method'')
         else Inl (ValueError (''Unable to parse: `'' @ query @ ''`'')))"

section \<open>Splitting and joining\<close>

lemma split_chr_nonempty: "split_chr sep s \<noteq> []"
  by (induction s) (auto split: list.splits)

lemma length_split_chr: "length (split_chr sep s) = count_list s sep + 1"
  by (induction s) (auto split: list.splits simp: split_chr_nonempty)

lemma split_chr_no_sep: "sep \<notin> set s \<Longrightarrow> split_chr sep s = [s]"
  by (induction s) auto

lemma split_chr_append: "sep \<notin> set a \<Longrightarrow> split_chr sep (a @ sep # b) = a # split_chr sep b"
  by (induction a) auto

section \<open>The parser factory\<close>

text \<open>
  Claim C9. For every choice string other than \<^verbatim>\<open>'Google'\<close> the factory \<^verbatim>\<open>parser\<close>
  returns \<^verbatim>\<open>None\<close> and raises nothing: the \<^verbatim>\<open>NotImplementedError\<close> is built and
  never raised.
\<close>

theorem parser_other_choice_returns_None:
  "choice \<noteq> ''Google'' \<Longrightarrow> parser obj choice = Inr None"
  by (simp add: parser_def parsers_def)

theorem parser_other_choice_returns_None_witness:
  "''Numpy'' \<noteq> ''Google'' \<and> parser ''text'' ''Numpy'' = Inr None"
  using parser_other_choice_returns_None [of "''Numpy''" "''text''"] by simp

section \<open>Query resolution: the kinds\<close>

lemma count_list_one_split:
  assumes "count_list q x = 1"
  shows "\<exists>a b. q = a @ x # b \<and> x \<notin> set a \<and> x \<notin> set b"
proof -
  from assms have "x \<in> set q" by (metis count_list_0_iff zero_neq_one)
  then obtain a b where q: "q = a @ x # b" and a: "x \<notin> set a"
    by (auto dest: split_list_first)
  from a have "count_list a x = 0" by (simp add: count_list_0_iff)
  with assms q have "count_list b x = 0" by simp
  then have "x \<notin> set b" by (simp add: count_list_0_iff)
  with q a show ?thesis by blast
qed

lemma islower_not_isupper: "islower c \<Longrightarrow> \<not> isupper c"
  by (auto simp: islower_def isupper_def Let_def)

lemma get_names_single:
  assumes "count_list q (CHR ''.'') = 0" and "q \<noteq> []"
  shows "get_names q = (if isupper (hd q) then Inr (q, [], ''class'') else Inr ([], q, ''function''))"
proof -
  from assms(1) have "split_chr (CHR ''.'') q = [q]"
    by (simp add: count_list_0_iff split_chr_no_sep)
  with assms(2) show ?thesis
    by (simp add: get_names_def hd_conv_nth)
qed

lemma get_names_method:
  assumes "count_list q (CHR ''.'') = 1"
  shows "\<exists>c f. get_names q = Inr (c, f, ''method'') \<and> q = c @ ''.'' @ f
               \<and> CHR ''.'' \<notin> set c \<and> CHR ''.'' \<notin> set f"
proof -
  from count_list_one_split [OF assms] obtain a b
    where q: "q = a @ CHR ''.'' # b" and a: "CHR ''.'' \<notin> set a" and b: "CHR ''.'' \<notin> set b"
    by blast
  then have "split_chr (CHR ''.'') q = [a, b]"
    by (simp add: split_chr_append split_chr_no_sep)
  then have "get_names q = Inr (a, b, ''method'')"
    by (simp add: get_names_def)
  with q a b show ?thesis by auto
qed

lemma get_names_error:
  assumes "1 < count_list q (CHR ''.'')"
  shows "get_names q = Inl (ValueError (''Unable to parse: `'' @ q @ ''`''))"
  using assms by (simp add: get_names_def length_split_chr Let_def)

text \<open>
  Claim C8. \<^verbatim>\<open>get_names\<close> maps the empty query to kind \<^verbatim>\<open>module\<close>; a query without
  a dot whose first character is upper-case to kind \<^verbatim>\<open>class\<close>, the query being the class
  name; a query without a dot that starts with a lower-case letter to kind \<^verbatim>\<open>function\<close>;
  a query of two segments (one dot) to kind \<^verbatim>\<open>method\<close>, the segments being the class
  and the function name; and it raises a \<^verbatim>\<open>ValueError\<close> for every query of more than two
  segments.
\<close>

theorem get_names_kinds:
  "get_names [] = Inr ([], [], ''module'')
   \<and> (count_list q (CHR ''.'') = 0 \<and> q \<noteq> [] \<and> isupper (hd q)
        \<longrightarrow> get_names q = Inr (q, [], ''class''))
   \<and> (count_list q (CHR ''.'') = 0 \<and> q \<noteq> [] \<and> islower (hd q)
        \<longrightarrow> get_names q = Inr ([], q, ''function''))
   \<and> (count_list q (CHR ''.'') = 1
        \<longrightarrow> (\<exists>c f. get_names q = Inr (c, f, ''method'') \<and> q = c @ ''.'' @ f
                   \<and> CHR ''.'' \<notin> set c \<and> CHR ''.'' \<notin> set f))
   \<and> (1 < count_list q (CHR ''.'')
        \<longrightarrow> get_names q = Inl (ValueError (''Unable to parse: `'' @ q @ ''`'')))"
proof -
  have "get_names [] = Inr ([], [], ''module'')"
    by (simp add: get_names_def)
  then show ?thesis
    using get_names_single [of q] get_names_method [of q] get_names_error [of q]
          islower_not_isupper [of "hd q"]
    by auto
qed

theorem get_names_kinds_witness:
  "get_names ''Foo'' = Inr (''Foo'', [], ''class'')
   \<and> get_names ''foo'' = Inr ([], ''foo'', ''function'')
   \<and> (\<exists>c f. get_names ''Foo.bar'' = Inr (c, f, ''method'') \<and> ''Foo.bar'' = c @ ''.'' @ f)
   \<and> get_names ''a.b.c'' = Inl (ValueError ''Unable to parse: `a.b.c`'')"
  using get_names_kinds [of "''Foo''"] get_names_kinds [of "''foo''"]
        get_names_kinds [of "''Foo.bar''"] get_names_kinds [of "''a.b.c''"]
  by (auto simp add: isupper_def islower_def)

section \<open>One step of the segmentation loop\<close>

lemma is_header_Nil: "\<not> is_header []"
  by (simp add: is_header_def header_findall_def headers_def)

lemma get_indent_Nil: "get_indent [] = 0"
  by (simp add: get_indent_def config_indent_def)

lemma get_indent_whitespace:
  "list_all is_space line \<Longrightarrow> get_indent line = (if 4 \<le> length line then length line else 0)"
proof -
  assume "list_all is_space line"
  then have tw: "takeWhile is_space line = line"
    by (simp add: list_all_iff)
  show ?thesis
    unfolding get_indent_def Let_def tw config_indent_def by simp
qed

lemma extract_step_empty_line:
  "extract_step lines ln [] (new_section, self)
     = Inr (new_section, self\<lparr>priv_section := priv_section self @ [[]]\<rparr>)"
  by (simp add: extract_step_def is_header_Nil get_indent_Nil is_indent_def append_line_def)

lemma extract_step_drop:
  assumes "line \<noteq> []" "\<not> is_header line" "get_indent line < priv_indent self"
  shows "extract_step lines ln line (False, self)
     = Inr (False, self\<lparr>priv_sections := priv_sections self @
                (if strip (join_nl (priv_section self)) \<noteq> [] then [join_nl (priv_section self)] else []),
              priv_section := [line], priv_indent := 0\<rparr>)"
  using assms
  by (simp add: extract_step_def append_line_def begin_section_def end_section_def Let_def)

lemma extract_step_unlocked:
  assumes "\<not> is_header line" "priv_indent self = 0"
  shows "extract_step lines ln line (False, self)
     = Inr (False, self\<lparr>priv_section := priv_section self @ [line]\<rparr>)"
  using assms by (simp add: extract_step_def append_line_def)

lemma extract_loop_unlocked:
  assumes "list_all (\<lambda>(ln, line). \<not> is_header line) rest" "priv_indent self = 0"
  shows "extract_loop lines rest (False, self)
     = Inr (False, self\<lparr>priv_section := priv_section self @ map snd rest\<rparr>)"
  using assms
proof (induction rest arbitrary: self)
  case Nil
  then show ?case by simp
next
  case (Cons a rest)
  obtain ln line where a: "a = (ln, line)" by (cases a)
  with Cons.prems have h: "\<not> is_header line" by simp
  have "extract_loop lines (a # rest) (False, self)
        = extract_loop lines rest (False, self\<lparr>priv_section := priv_section self @ [line]\<rparr>)"
    by (simp add: a extract_step_unlocked [OF h Cons.prems(2)])
  also have "\<dots> = Inr (False, self\<lparr>priv_section := priv_section self @ [line]\<rparr>
                         \<lparr>priv_section := priv_section (self\<lparr>priv_section := priv_section self @ [line]\<rparr>) @ map snd rest\<rparr>)"
    using Cons.prems by (intro Cons.IH) auto
  finally show ?case by (simp add: a)
qed

text \<open>
  Claim C7, as stated, fails: a line of four spaces is whitespace only, yet its indent is
  4 and it is indented; and the line of two spaces below ends the section of \<^verbatim>\<open>x\<close>
  by itself.
\<close>

theorem whitespace_line_indent_counterexample:
  "list_all is_space ''    '' \<and> get_indent ''    '' = 4 \<and> is_indent ''    ''
   \<and> list_all is_space ''  ''
   \<and> map_sum id priv_sections
         (extract_sections (init (join_nl [''        x'', ''  '', ''        y''])))
       = Inr [''x'', join_nl [''  '', ''        y'']]"
  by code_simp

text \<open>
  Claim C7, amended. For the empty line the indentation analyzer returns indent 0 and
  classifies the line as not indented, and an empty line never terminates a section during
  segmentation: it is appended as it is, and the threshold, the new-section flag and the
  emitted sections stay as they are. A line of whitespace only has indent 0 only when it
  is shorter than four characters; otherwise its indent is its length.
\<close>

theorem empty_line_indent_and_step:
  "get_indent [] = 0 \<and> \<not> is_indent []
   \<and> extract_step lines ln [] (new_section, self)
       = Inr (new_section, self\<lparr>priv_section := priv_section self @ [[]]\<rparr>)
   \<and> (list_all is_space line
        \<longrightarrow> get_indent line = (if 4 \<le> length line then length line else 0))"
  using get_indent_whitespace [of line]
  by (simp add: get_indent_Nil is_indent_def extract_step_empty_line)

theorem empty_line_indent_and_step_witness:
  "list_all is_space ''  '' \<and> get_indent ''  '' = 0
   \<and> list_all is_space ''     '' \<and> get_indent ''     '' = 5"
  using empty_line_indent_and_step [of "[]" 0 True "init []" "''  ''"]
        empty_line_indent_and_step [of "[]" 0 True "init []" "''     ''"]
  by (simp add: is_space_def)

text \<open>
  Claim C3, as stated, fails: after the indent drop at \<^verbatim>\<open>b\<close> the next indented line
  has indent 4, but the threshold stays 0 and the line is stored with its indentation.
\<close>

theorem indent_drop_relock_counterexample:
  "get_indent ''    c'' = 4 \<and> is_indent ''    c''
   \<and> extract_loop [''    a'', ''b'', ''    c''] (enumerate 0 [''    a'', ''b'', ''    c''])
         (True, init [])
       = Inr (False, (init [])\<lparr>priv_sections := [''a''], priv_section := [''b'', ''    c''],
                                priv_indent := 0\<rparr>)"
  by code_simp

text \<open>
  Claim C3, amended. Whenever, with the threshold locked, a non-empty, non-header line has
  indent depth strictly less than the threshold, the current section is closed (and
  emitted unless it is blank) and a new headerless section is started with that line and the
  threshold reset to 0. The threshold is not locked again in that section: the
  new-section flag stays unset, and every following line up to the next header is
  appended unstripped, the threshold still 0.
\<close>

theorem indent_drop_starts_unlocked_section:
  assumes "line \<noteq> []" and "\<not> is_header line" and "get_indent line < priv_indent self"
    and "list_all (\<lambda>(ln, l). \<not> is_header l) rest"
  shows "\<exists>self'. extract_step lines ln line (False, self) = Inr (False, self')
           \<and> priv_indent self' = 0 \<and> priv_section self' = [line]
           \<and> priv_sections self' = priv_sections self @
                 (if strip (join_nl (priv_section self)) \<noteq> []
                  then [join_nl (priv_section self)] else [])
           \<and> extract_loop lines rest (False, self')
               = Inr (False, self'\<lparr>priv_section := line # map snd rest\<rparr>)"
proof -
  let ?s = "self\<lparr>priv_sections := priv_sections self @
                (if strip (join_nl (priv_section self)) \<noteq> []
                 then [join_nl (priv_section self)] else []),
              priv_section := [line], priv_indent := 0\<rparr>"
  have step: "extract_step lines ln line (False, self) = Inr (False, ?s)"
    by (rule extract_step_drop [OF assms(1-3)])
  have "extract_loop lines rest (False, ?s)
          = Inr (False, ?s\<lparr>priv_section := priv_section ?s @ map snd rest\<rparr>)"
    by (rule extract_loop_unlocked [OF assms(4)]) simp
  with step show ?thesis by auto
qed

theorem indent_drop_starts_unlocked_section_witness:
  "\<exists>self'. extract_step [] 1 ''b'' (False, (init [])\<lparr>priv_section := [''a''], priv_indent := 4\<rparr>)
             = Inr (False, self')
        \<and> priv_indent self' = 0 \<and> priv_section self' = [''b''] \<and> priv_sections self' = [''a'']
        \<and> extract_loop [] [(2, ''    c'')] (False, self')
            = Inr (False, self'\<lparr>priv_section := [''b'', ''    c'']\<rparr>)"
proof -
  have h1: "''b'' \<noteq> []" by simp
  have h2: "\<not> is_header ''b''" by code_simp
  have h3: "get_indent ''b'' < priv_indent ((init [])\<lparr>priv_section := [''a''], priv_indent := 4\<rparr>)"
    by code_simp
  have h4: "list_all (\<lambda>(ln, l). \<not> is_header l) [(2 :: nat, ''    c'')]" by code_simp
  have "strip (join_nl [''a'']) \<noteq> []" by code_simp
  with indent_drop_starts_unlocked_section [OF h1 h2 h3 h4, of "[]" 1] show ?thesis
    by (simp add: init_def)
qed

section \<open>What the argument pattern captures\<close>












section \<open>The continuation lines of an argument\<close>

lemma get_next_line_loop_total:
  "inc \<le> length lines \<Longrightarrow> \<exists>l. get_next_line_loop lines inc = Inr l"
proof (induction lines inc rule: get_next_line_loop.induct)
  case (1 lines inc)
  show ?case
  proof (cases "inc = length lines \<or> lines ! inc \<noteq> []")
    case True
    then show ?thesis using "1.prems"
      by (subst get_next_line_loop.simps) auto
  next
    case False
    with "1.prems" have "inc + 1 \<le> length lines" by simp
    with False "1.prems" "1.IH" have "\<exists>l. get_next_line_loop lines (inc + 1) = Inr l" by simp
    with False "1.prems" show ?thesis
      by (subst get_next_line_loop.simps) auto
  qed
qed

lemma get_next_line_loop_nonempty:
  "get_next_line_loop lines inc = Inr l \<Longrightarrow> l \<noteq> [] \<Longrightarrow> inc < length lines"
proof (induction lines inc rule: get_next_line_loop.induct)
  case (1 lines inc)
  from "1.prems" show ?case
    by (subst (asm) get_next_line_loop.simps) (auto split: if_splits)
qed

lemma get_next_line_total:
  "ln < length lines \<Longrightarrow> \<exists>l. get_next_line lines ln = Inr l"
  by (simp add: get_next_line_def get_next_line_loop_total)

lemma get_next_line_nonempty:
  "get_next_line lines ln = Inr l \<Longrightarrow> l \<noteq> [] \<Longrightarrow> ln + 1 < length lines"
  by (simp add: get_next_line_def get_next_line_loop_nonempty)

lemma is_indent_nonempty: "is_indent l \<Longrightarrow> l \<noteq> []"
  by (auto simp: is_indent_def get_indent_def config_indent_def)

lemma arglist_loop_result:
  "linenum < length lines \<Longrightarrow>
   \<exists>n. arglist_loop lines linenum description
          = Inr (linenum + n, description @ take n (drop (linenum + 1) lines))
      \<and> linenum + n < length lines
      \<and> (\<forall>k<n. \<exists>l. get_next_line lines (linenum + k) = Inr l \<and> is_indent l)
      \<and> (\<exists>l. get_next_line lines (linenum + n) = Inr l \<and> \<not> is_indent l)"
proof (induction lines linenum description rule: arglist_loop.induct)
  case (1 lines linenum description)
  from get_next_line_total [OF "1.prems"] obtain next_line
    where nx: "get_next_line lines linenum = Inr next_line" by blast
  show ?case
  proof (cases "is_indent next_line")
    case False
    with nx have "arglist_loop lines linenum description = Inr (linenum, description)"
      by (subst arglist_loop.simps) simp
    with nx False "1.prems" show ?thesis
      by (intro exI [of _ 0]) simp
  next
    case True
    with nx have lt: "linenum + 1 < length lines"
      by (auto dest: get_next_line_nonempty is_indent_nonempty)
    let ?d = "description @ [lines ! (linenum + 1)]"
    from "1.IH" [OF nx True lt lt] obtain n where
      r: "arglist_loop lines (linenum + 1) ?d
            = Inr (linenum + 1 + n, ?d @ take n (drop (linenum + 1 + 1) lines))"
      and b: "linenum + 1 + n < length lines"
      and ind: "\<forall>k<n. \<exists>l. get_next_line lines (linenum + 1 + k) = Inr l \<and> is_indent l"
      and stop: "\<exists>l. get_next_line lines (linenum + 1 + n) = Inr l \<and> \<not> is_indent l"
      by blast
    have dr: "drop (Suc linenum) lines = lines ! (Suc linenum) # drop (Suc (Suc linenum)) lines"
      using lt by (simp add: Cons_nth_drop_Suc)
    have "arglist_loop lines linenum description = arglist_loop lines (linenum + 1) ?d"
      using nx True lt by (subst arglist_loop.simps) simp
    with r have res: "arglist_loop lines linenum description
        = Inr (linenum + Suc n, description @ take (Suc n) (drop (linenum + 1) lines))"
      by (simp add: dr)
    have ind': "\<forall>k<Suc n. \<exists>l. get_next_line lines (linenum + k) = Inr l \<and> is_indent l"
    proof (intro allI impI)
      fix k assume "k < Suc n"
      show "\<exists>l. get_next_line lines (linenum + k) = Inr l \<and> is_indent l"
      proof (cases k)
        case 0
        with nx True show ?thesis by simp
      next
        case (Suc k')
        with \<open>k < Suc n\<close> ind show ?thesis by simp
      qed
    qed
    from res b ind' stop show ?thesis
      by (intro exI [of _ "Suc n"]) simp
  qed
qed

section \<open>Multi-line arguments\<close>

text \<open>
  Claim C5, as stated, fails: the empty line between the argument line and its indented
  continuation is appended to the description.
\<close>

theorem arglist_blank_lines_counterexample:
  "parse_arglist [''x: a'', '''', ''    more''] False 0
     = Inr (Some \<lparr>arg_field = ''x'', arg_signature = [],
                  arg_description = join_nl [''a'', '''', ''    more'']\<rparr>, 2)"
  by code_simp

text \<open>
  Claim C5, amended. During multi-line field parsing, while the next non-empty line after
  the cursor is indented, the cursor moves on by one line and the line now at the cursor,
  empty or not, is appended verbatim to the description (joined by line feeds): the
  description is the rest of the argument line followed by the \<open>n\<close> lines after it, the
  empty ones included, where \<open>n\<close> is the first offset at which the next non-empty line
  is not indented. The loop always returns.
\<close>

theorem parse_arglist_continuation:
  assumes "linenum < length lines" and "get_arg (lines ! linenum) = Some (g1, g2, g3)"
  shows "\<exists>n. parse_arglist lines require linenum
            = Inr (Some \<lparr>arg_field = g1, arg_signature = g2,
                         arg_description = join_nl (g3 # take n (drop (linenum + 1) lines))\<rparr>,
                   linenum + n)
          \<and> linenum + n < length lines
          \<and> (\<forall>k<n. \<exists>l. get_next_line lines (linenum + k) = Inr l \<and> is_indent l)
          \<and> (\<exists>l. get_next_line lines (linenum + n) = Inr l \<and> \<not> is_indent l)"
proof -
  from arglist_loop_result [OF assms(1), of "[g3]"] obtain n where
    r: "arglist_loop lines linenum [g3]
          = Inr (linenum + n, [g3] @ take n (drop (linenum + 1) lines))"
    and rest: "linenum + n < length lines"
      "\<forall>k<n. \<exists>l. get_next_line lines (linenum + k) = Inr l \<and> is_indent l"
      "\<exists>l. get_next_line lines (linenum + n) = Inr l \<and> \<not> is_indent l"
    by blast
  from assms r have "parse_arglist lines require linenum
            = Inr (Some \<lparr>arg_field = g1, arg_signature = g2,
                         arg_description = join_nl (g3 # take n (drop (linenum + 1) lines))\<rparr>,
                   linenum + n)"
    by (simp add: parse_arglist_def)
  with rest show ?thesis by blast
qed

theorem parse_arglist_continuation_witness:
  "\<exists>n. parse_arglist [''x: a'', [], ''    more'', ''y''] False 0
            = Inr (Some \<lparr>arg_field = ''x'', arg_signature = [],
                         arg_description =
                           join_nl (''a'' # take n (drop (0 + 1) [''x: a'', [], ''    more'', ''y'']))\<rparr>,
                   0 + n)
          \<and> 0 + n < length [''x: a'', [], ''    more'', ''y'']
          \<and> (\<forall>k<n. \<exists>l. get_next_line [''x: a'', [], ''    more'', ''y''] (0 + k) = Inr l
                          \<and> is_indent l)
          \<and> (\<exists>l. get_next_line [''x: a'', [], ''    more'', ''y''] (0 + n) = Inr l
                   \<and> \<not> is_indent l)"
proof -
  have h1: "0 < length [''x: a'', [], ''    more'', ''y'']" by simp
  have h2: "get_arg ([''x: a'', [], ''    more'', ''y''] ! 0) = Some (''x'', [], ''a'')"
    by code_simp
  show ?thesis by (rule parse_arglist_continuation [OF h1 h2])
qed

section \<open>The entries of an argument list\<close>




section \<open>Lines, blank strings and stripped prefixes\<close>

lemma split_chr_no_sep_in_pieces: "l \<in> set (split_chr sep s) \<Longrightarrow> sep \<notin> set l"
proof (induction s arbitrary: l)
  case Nil
  then show ?case by simp
next
  case (Cons c s)
  then show ?case
    by (cases "split_chr sep s") (auto split: if_splits)
qed

lemma split_nl_join_nl:
  "xs \<noteq> [] \<Longrightarrow> \<forall>x\<in>set xs. nl \<notin> set x \<Longrightarrow> split_nl (join_nl xs) = xs"
proof (induction xs rule: join_nl.induct)
  case 1
  then show ?case by simp
next
  case (2 x)
  then show ?case by (simp add: split_nl_def split_chr_no_sep)
next
  case (3 x y ys)
  then have "split_nl (join_nl (y # ys)) = y # ys" by simp
  with "3.prems" show ?case
    by (simp add: split_nl_def split_chr_append)
qed

lemma join_nl_split_nl: "join_nl (split_nl s) = s"
proof (induction s)
  case Nil
  then show ?case by (simp add: split_nl_def)
next
  case (Cons c s)
  show ?case
  proof (cases "split_chr nl s")
    case Nil
    then show ?thesis by (simp add: split_chr_nonempty)
  next
    case (Cons l ls)
    with Cons.IH show ?thesis
      by (cases ls) (auto simp: split_nl_def)
  qed
qed

text \<open>
  A string is blank when \<^verbatim>\<open>strip()\<close> leaves nothing of it: the test by which
  \<^verbatim>\<open>_end_section\<close> drops a section.
\<close>

definition blank :: "string \<Rightarrow> bool" where
  "blank s = (strip s = [])"

lemma blank_iff: "blank s \<longleftrightarrow> (\<forall>c\<in>set s. is_space c)"
proof
  assume "blank s"
  then have a: "\<forall>c\<in>set (dropWhile is_space s). is_space c"
    by (simp add: blank_def strip_def dropWhile_eq_Nil_conv)
  have "dropWhile is_space s = []"
  proof (rule ccontr)
    assume ne: "dropWhile is_space s \<noteq> []"
    then have "\<not> is_space (hd (dropWhile is_space s))" by (rule hd_dropWhile)
    moreover from ne have "hd (dropWhile is_space s) \<in> set (dropWhile is_space s)" by simp
    ultimately show False using a by blast
  qed
  then show "\<forall>c\<in>set s. is_space c" by (simp add: dropWhile_eq_Nil_conv)
next
  assume "\<forall>c\<in>set s. is_space c"
  then have dw: "dropWhile is_space s = []" by (simp add: dropWhile_eq_Nil_conv)
  show "blank s" unfolding blank_def strip_def dw by simp
qed

lemma blank_iff_dropWhile: "blank s \<longleftrightarrow> dropWhile is_space s = []"
  by (simp add: blank_iff dropWhile_eq_Nil_conv)

lemma is_space_nl: "is_space nl"
  by (simp add: is_space_def nl_def)

lemma blank_join_nl: "blank (join_nl xs) \<longleftrightarrow> (\<forall>x\<in>set xs. blank x)"
  by (induction xs rule: join_nl.induct) (auto simp: blank_iff is_space_nl)

lemma is_header_not_blank: "is_header l \<Longrightarrow> \<not> blank l"
proof -
  assume "is_header l"
  then obtain k where p: "prefix (k @ '':'') (dropWhile is_space l)"
    by (auto simp: is_header_def header_findall_def find_Some_iff)
  have "dropWhile is_space l \<noteq> []"
  proof
    assume "dropWhile is_space l = []"
    with p show False by simp
  qed
  then show ?thesis by (simp only: blank_iff_dropWhile not_False_eq_True)
qed

lemma dropWhile_drop_whitespace:
  assumes "n \<le> length (takeWhile is_space l)"
  shows "dropWhile is_space (drop n l) = dropWhile is_space l"
proof -
  let ?tw = "takeWhile is_space l" and ?dw = "dropWhile is_space l"
  have "drop n l = drop n ?tw @ ?dw"
    using drop_append [of n ?tw ?dw] assms by simp
  then have "dropWhile is_space (drop n l) = dropWhile is_space (drop n ?tw @ ?dw)" by simp
  also have "\<dots> = dropWhile is_space ?dw"
    by (rule dropWhile_append2) (auto dest: in_set_dropD set_takeWhileD)
  finally show ?thesis by simp
qed

lemma is_header_cong: "dropWhile is_space a = dropWhile is_space b \<Longrightarrow> is_header a = is_header b"
  by (simp add: is_header_def header_findall_def)

text \<open>Where the loop neither opens nor closes a section, what it strips is whitespace.\<close>

lemma strip_prefix_whitespace:
  assumes "line = [] \<or> indent \<le> get_indent line"
  shows "dropWhile is_space (drop indent line) = dropWhile is_space line"
proof (cases "line = [] \<or> indent = 0")
  case True
  then show ?thesis by auto
next
  case False
  with assms have "indent \<le> length (takeWhile is_space line)"
    by (auto simp: get_indent_def Let_def split: if_splits)
  then show ?thesis by (rule dropWhile_drop_whitespace)
qed

section \<open>Counting lines through the segmentation\<close>

text \<open>
  The quantities the claims about segmentation speak of: the lines of a list that are not
  blank, the lines that are headers, and the content of a stored section, namely the lines
  that the loop of \<^verbatim>\<open>parse_section\<close> goes through (from \<open>first_linenum\<close> on).
  \<open>stored_nonblank\<close> and \<open>stored_headers\<close> count, over the emitted sections and the
  pending one, the non-blank lines and the sections that start with a header;
  \<open>well_formed\<close> says that no pending line holds a line feed and that a header stands
  only at the start of a section.
\<close>

definition nonblank_lines :: "string list \<Rightarrow> nat" where
  "nonblank_lines ls = length (filter (\<lambda>l. \<not> blank l) ls)"

definition header_lines :: "string list \<Rightarrow> nat" where
  "header_lines ls = length (filter is_header ls)"

definition stored_nonblank :: "GoogleDocString \<Rightarrow> nat" where
  "stored_nonblank self =
     sum_list (map (\<lambda>s. nonblank_lines (split_nl s)) (priv_sections self))
     + nonblank_lines (priv_section self)"

definition stored_headers :: "GoogleDocString \<Rightarrow> nat" where
  "stored_headers self =
     length (filter (\<lambda>s. is_header (split_nl s ! 0)) (priv_sections self))
     + (if priv_section self \<noteq> [] \<and> is_header (priv_section self ! 0) then 1 else 0)"

definition well_formed :: "GoogleDocString \<Rightarrow> bool" where
  "well_formed self \<longleftrightarrow>
     (\<forall>l\<in>set (priv_section self). nl \<notin> set l)
     \<and> (\<forall>l\<in>set (tl (priv_section self)). \<not> is_header l)
     \<and> (\<forall>s\<in>set (priv_sections self). \<forall>l\<in>set (tl (split_nl s)). \<not> is_header l)"

definition content_lines :: "string \<Rightarrow> string list" where
  "content_lines sec = (let lines = split_nl sec in drop (first_linenum lines) lines)"

lemma nonblank_lines_append [simp]:
  "nonblank_lines (xs @ ys) = nonblank_lines xs + nonblank_lines ys"
  by (simp add: nonblank_lines_def)

lemma nonblank_lines_zero: "\<forall>x\<in>set xs. blank x \<Longrightarrow> nonblank_lines xs = 0"
  by (simp add: nonblank_lines_def)

lemma close_section:
  assumes "well_formed self"
  shows "stored_nonblank (begin_section (end_section self)) = stored_nonblank self"
    and "stored_headers (begin_section (end_section self)) = stored_headers self"
    and "well_formed (begin_section (end_section self))"
    and "priv_section (begin_section (end_section self)) = []"
    and "priv_indent (begin_section (end_section self)) = 0"
proof -
  let ?p = "priv_section self"
  show "priv_section (begin_section (end_section self)) = []"
    and "priv_indent (begin_section (end_section self)) = 0"
    by (simp_all add: begin_section_def)
  show "stored_nonblank (begin_section (end_section self)) = stored_nonblank self"
    and "stored_headers (begin_section (end_section self)) = stored_headers self"
    and "well_formed (begin_section (end_section self))"
  proof (atomize (full), cases "blank (join_nl ?p)")
    case True
    then have all: "\<forall>x\<in>set ?p. blank x" by (simp add: blank_join_nl)
    then have z: "nonblank_lines ?p = 0" by (rule nonblank_lines_zero)
    have nh: "\<not> (?p \<noteq> [] \<and> is_header (?p ! 0))"
    proof
      assume a: "?p \<noteq> [] \<and> is_header (?p ! 0)"
      then have "?p ! 0 \<in> set ?p" by simp
      with all have "blank (?p ! 0)" by blast
      with a show False by (auto dest: is_header_not_blank)
    qed
    from True have e: "end_section self = self"
      by (simp add: end_section_def blank_def)
    from z nh assms show "stored_nonblank (begin_section (end_section self)) = stored_nonblank self
      \<and> stored_headers (begin_section (end_section self)) = stored_headers self
      \<and> well_formed (begin_section (end_section self))"
      by (simp add: e begin_section_def stored_nonblank_def stored_headers_def well_formed_def
               nonblank_lines_def)
  next
    case False
    then have ne: "?p \<noteq> []" by (auto simp: blank_def strip_def)
    from assms have "\<forall>x\<in>set ?p. nl \<notin> set x" by (simp add: well_formed_def)
    with ne have rt: "split_nl (join_nl ?p) = ?p" by (rule split_nl_join_nl)
    from False have e: "end_section self = self\<lparr>priv_sections := priv_sections self @ [join_nl ?p]\<rparr>"
      by (simp add: end_section_def blank_def)
    from ne assms show "stored_nonblank (begin_section (end_section self)) = stored_nonblank self
      \<and> stored_headers (begin_section (end_section self)) = stored_headers self
      \<and> well_formed (begin_section (end_section self))"
      by (simp add: e rt begin_section_def stored_nonblank_def stored_headers_def well_formed_def
               nonblank_lines_def)
  qed
qed

lemma blank_cong: "dropWhile is_space a = dropWhile is_space b \<Longrightarrow> blank a = blank b"
  by (simp only: blank_iff_dropWhile)

lemma append_line_measures:
  assumes wf: "well_formed self" and nonl: "nl \<notin> set line"
    and ws: "line = [] \<or> priv_indent self \<le> get_indent line"
    and hd: "priv_section self \<noteq> [] \<longrightarrow> \<not> is_header line"
  shows "stored_nonblank (append_line line self)
           = stored_nonblank self + (if blank line then 0 else 1)"
    and "stored_headers (append_line line self)
           = stored_headers self + (if is_header line then 1 else 0)"
    and "well_formed (append_line line self)"
proof -
  let ?x = "drop (priv_indent self) line"
  from ws have dw: "dropWhile is_space ?x = dropWhile is_space line"
    by (rule strip_prefix_whitespace)
  then have b: "blank ?x = blank line" and h: "is_header ?x = is_header line"
    by (rule blank_cong, rule is_header_cong)
  show "stored_nonblank (append_line line self)
           = stored_nonblank self + (if blank line then 0 else 1)"
    by (simp add: append_line_def stored_nonblank_def b nonblank_lines_def)
  show "stored_headers (append_line line self)
           = stored_headers self + (if is_header line then 1 else 0)"
    using hd by (cases "priv_section self") (simp_all add: append_line_def stored_headers_def h)
  from nonl have "nl \<notin> set ?x" by (auto dest: in_set_dropD)
  with wf hd show "well_formed (append_line line self)"
    by (cases "priv_section self") (auto simp: append_line_def well_formed_def h)
qed

lemma measures_indent_update [simp]:
  "stored_nonblank (self\<lparr>priv_indent := i\<rparr>) = stored_nonblank self"
  "stored_headers (self\<lparr>priv_indent := i\<rparr>) = stored_headers self"
  "well_formed (self\<lparr>priv_indent := i\<rparr>) = well_formed self"
  by (simp_all add: stored_nonblank_def stored_headers_def well_formed_def)

lemma extract_step_measures:
  assumes wf: "well_formed self" and nonl: "nl \<notin> set line"
    and step: "extract_step lines ln line (ns, self) = Inr (ns', self')"
  shows "stored_nonblank self' = stored_nonblank self + (if blank line then 0 else 1)
       \<and> stored_headers self' = stored_headers self + (if is_header line then 1 else 0)
       \<and> well_formed self'"
proof -
  define self1 where "self1 = (if ns \<and> is_indent line
                                then self\<lparr>priv_indent := get_indent line\<rparr> else self)"
  have wf1: "well_formed self1" and m1: "stored_nonblank self1 = stored_nonblank self"
    "stored_headers self1 = stored_headers self"
    using wf by (simp_all add: self1_def)
  let ?c = "begin_section (end_section self1)"
  note cl = close_section [OF wf1]
  consider (header) "is_header line"
    | (drop) "\<not> is_header line" "line \<noteq> []" "get_indent line < priv_indent self1"
    | (keep) "\<not> is_header line" "line = [] \<or> priv_indent self1 \<le> get_indent line"
    by force
  then show ?thesis
  proof cases
    case header
    with step have s: "self' = append_line line ?c"
      by (auto simp: extract_step_def self1_def Let_def split: if_splits sum.splits)
    from append_line_measures [OF cl(3) nonl, unfolded cl] header show ?thesis
      by (simp add: s cl m1)
  next
    case drop
    with step have s: "self' = append_line line ?c"
      by (auto simp: extract_step_def self1_def Let_def split: if_splits sum.splits)
    from append_line_measures [OF cl(3) nonl, unfolded cl] drop show ?thesis
      by (simp add: s cl m1)
  next
    case keep
    with step have s: "self' = append_line line self1"
      by (auto simp: extract_step_def self1_def Let_def split: if_splits sum.splits)
    from append_line_measures [OF wf1 nonl keep(2)] keep(1) show ?thesis
      by (simp add: s m1)
  qed
qed

lemma extract_loop_measures:
  assumes "well_formed self" and "\<forall>l\<in>set (map snd rest). nl \<notin> set l"
    and "extract_loop lines rest (ns, self) = Inr (ns', self')"
  shows "stored_nonblank self' = stored_nonblank self + nonblank_lines (map snd rest)
       \<and> stored_headers self' = stored_headers self + header_lines (map snd rest)
       \<and> well_formed self'"
  using assms
proof (induction rest arbitrary: ns self)
  case Nil
  then show ?case by (simp add: nonblank_lines_def header_lines_def)
next
  case (Cons a rest)
  obtain ln line where a: "a = (ln, line)" by (cases a)
  from Cons.prems(3) obtain ns1 self1
    where st: "extract_step lines ln line (ns, self) = Inr (ns1, self1)"
      and lp: "extract_loop lines rest (ns1, self1) = Inr (ns', self')"
    by (auto simp: a split: sum.splits)
  from Cons.prems(2) have nonl: "nl \<notin> set line" and rest: "\<forall>l\<in>set (map snd rest). nl \<notin> set l"
    by (simp_all add: a)
  from extract_step_measures [OF Cons.prems(1) nonl st]
  have m: "stored_nonblank self1 = stored_nonblank self + (if blank line then 0 else 1)"
    "stored_headers self1 = stored_headers self + (if is_header line then 1 else 0)"
    "well_formed self1" by simp_all
  from Cons.IH [OF m(3) rest lp] m show ?case
    by (simp add: a nonblank_lines_def header_lines_def)
qed

lemma well_formed_init: "well_formed (init doc)"
  and stored_nonblank_init: "stored_nonblank (init doc) = 0"
  and stored_headers_init: "stored_headers (init doc) = 0"
  by (simp_all add: well_formed_def stored_nonblank_def stored_headers_def init_def
        nonblank_lines_def)

lemma extract_sections_measures:
  assumes wf: "well_formed self" and ex: "extract_sections self = Inr self'"
  shows "stored_nonblank self' = stored_nonblank self + nonblank_lines (split_nl (docstring self))"
    and "stored_headers self' = stored_headers self + header_lines (split_nl (docstring self))"
    and "well_formed self'" and "priv_section self' = []" and "priv_indent self' = 0"
proof -
  let ?lines = "split_nl (docstring self)"
  from ex obtain ns1 self1
    where lp: "extract_loop ?lines (enumerate 0 ?lines) (True, self) = Inr (ns1, self1)"
      and s: "self' = begin_section (end_section self1)"
    by (auto simp: extract_sections_def Let_def split: sum.splits)
  have nonl: "\<forall>l\<in>set (map snd (enumerate 0 ?lines)). nl \<notin> set l"
    by (auto simp: split_nl_def dest: split_chr_no_sep_in_pieces)
  from extract_loop_measures [OF wf nonl lp]
  have m: "stored_nonblank self1 = stored_nonblank self + nonblank_lines ?lines"
    "stored_headers self1 = stored_headers self + header_lines ?lines" "well_formed self1"
    by simp_all
  note cl = close_section [OF m(3)]
  show "stored_nonblank self' = stored_nonblank self + nonblank_lines ?lines"
    and "stored_headers self' = stored_headers self + header_lines ?lines"
    and "well_formed self'" and "priv_section self' = []" and "priv_indent self' = 0"
    by (simp_all add: s cl m)
qed

lemma get_header_nonempty_iff: "get_header l \<noteq> [] \<longleftrightarrow> is_header l"
proof (cases "header_findall l")
  case None
  then show ?thesis by (simp add: get_header_def is_header_def)
next
  case (Some k)
  then have "k \<in> set headers"
    by (auto simp: header_findall_def find_Some_iff)
  then have "k \<noteq> []" by (auto simp: headers_def)
  with Some show ?thesis by (simp add: get_header_def is_header_def)
qed

lemma content_lines_count:
  "nonblank_lines (content_lines s) + (if is_header (split_nl s ! 0) then 1 else 0)
     = nonblank_lines (split_nl s)"
proof -
  obtain l ls where sp: "split_nl s = l # ls"
    using split_chr_nonempty [of nl s] by (cases "split_nl s") (auto simp: split_nl_def)
  show ?thesis
    by (auto simp: content_lines_def first_linenum_def sp get_header_nonempty_iff
          nonblank_lines_def dest: is_header_not_blank)
qed

lemma content_lines_no_header:
  assumes "\<forall>l\<in>set (tl (split_nl s)). \<not> is_header l"
  shows "\<forall>l\<in>set (content_lines s). \<not> is_header l"
proof -
  obtain l ls where sp: "split_nl s = l # ls"
    using split_chr_nonempty [of nl s] by (cases "split_nl s") (auto simp: split_nl_def)
  with assms show ?thesis
    by (auto simp: content_lines_def first_linenum_def get_header_nonempty_iff)
qed

lemma sum_content_lines:
  "sum_list (map (\<lambda>s. nonblank_lines (content_lines s)) secs)
     + length (filter (\<lambda>s. is_header (split_nl s ! 0)) secs)
   = sum_list (map (\<lambda>s. nonblank_lines (split_nl s)) secs)"
proof (induction secs)
  case Nil
  then show ?case by simp
next
  case (Cons s secs)
  from content_lines_count [of s] Cons.IH show ?case by (simp split: if_splits)
qed

lemma header_lines_le: "header_lines ls \<le> nonblank_lines ls"
proof (induction ls)
  case Nil
  then show ?case by (simp add: header_lines_def nonblank_lines_def)
next
  case (Cons l ls)
  then show ?case
    by (auto simp: header_lines_def nonblank_lines_def dest: is_header_not_blank)
qed

text \<open>
  Claim C2, as stated, fails: the block emitted for the section \<^verbatim>\<open>Args\<close> stores its
  header line as its first line, so the blocks hold two non-blank lines where the
  docstring has two non-blank lines, one of them a header.
\<close>

theorem section_blocks_keep_header_counterexample:
  "extract_sections (init (join_nl [''Args:'', ''    x: y'']))
     = Inr ((init (join_nl [''Args:'', ''    x: y'']))
              \<lparr>priv_sections := [join_nl [''Args:'', ''x: y'']]\<rparr>)
   \<and> is_header (split_nl (join_nl [''Args:'', ''x: y'']) ! 0)
   \<and> nonblank_lines (split_nl (join_nl [''Args:'', ''x: y''])) = 2
   \<and> nonblank_lines (split_nl (join_nl [''Args:'', ''    x: y''])) = 2
   \<and> header_lines (split_nl (join_nl [''Args:'', ''    x: y''])) = 1"
  by code_simp

text \<open>
  Claim C2, amended. For every docstring that segmentation accepts, the emitted section
  blocks store every non-blank line of the docstring, a header line as the first line of
  its block. Counted without that first line, which \<^verbatim>\<open>parse_section\<close> skips (the content of
  a block: its lines from the first cursor position on), the non-blank lines of all blocks
  number at most, and exactly, the non-blank lines of the docstring minus its header lines;
  and no header line is in the content of any block.
\<close>

theorem section_content_nonblank_lines:
  assumes "extract_sections (init doc) = Inr self'"
  shows "sum_list (map (\<lambda>s. nonblank_lines (content_lines s)) (priv_sections self'))
           \<le> nonblank_lines (split_nl doc) - header_lines (split_nl doc)
       \<and> sum_list (map (\<lambda>s. nonblank_lines (content_lines s)) (priv_sections self'))
           + header_lines (split_nl doc) = nonblank_lines (split_nl doc)
       \<and> sum_list (map (\<lambda>s. nonblank_lines (split_nl s)) (priv_sections self'))
           = nonblank_lines (split_nl doc)
       \<and> (\<forall>s\<in>set (priv_sections self'). \<forall>l\<in>set (content_lines s). \<not> is_header l)"
proof -
  note m = extract_sections_measures [OF well_formed_init assms]
  from m(1,4) have nb: "sum_list (map (\<lambda>s. nonblank_lines (split_nl s)) (priv_sections self'))
      = nonblank_lines (split_nl doc)"
    by (simp add: stored_nonblank_def stored_nonblank_init init_def nonblank_lines_def)
  from m(2,4) have hd: "length (filter (\<lambda>s. is_header (split_nl s ! 0)) (priv_sections self'))
      = header_lines (split_nl doc)"
    by (simp add: stored_headers_def stored_headers_init init_def)
  from sum_content_lines [of "priv_sections self'"] nb hd
  have eq: "sum_list (map (\<lambda>s. nonblank_lines (content_lines s)) (priv_sections self'))
           + header_lines (split_nl doc) = nonblank_lines (split_nl doc)" by simp
  from m(3) have "\<forall>s\<in>set (priv_sections self'). \<forall>l\<in>set (content_lines s). \<not> is_header l"
    by (auto simp: well_formed_def dest!: content_lines_no_header)
  with eq nb show ?thesis by simp
qed

theorem section_content_nonblank_lines_witness:
  "extract_sections (init (join_nl [''Summary'', ''Args:'', ''    x: y'']))
     = Inr ((init (join_nl [''Summary'', ''Args:'', ''    x: y'']))
              \<lparr>priv_sections := [''Summary'', join_nl [''Args:'', ''x: y'']]\<rparr>)
   \<and> sum_list (map (\<lambda>s. nonblank_lines (content_lines s))
         (priv_sections ((init (join_nl [''Summary'', ''Args:'', ''    x: y'']))
              \<lparr>priv_sections := [''Summary'', join_nl [''Args:'', ''x: y'']]\<rparr>)))
       + header_lines (split_nl (join_nl [''Summary'', ''Args:'', ''    x: y'']))
     = nonblank_lines (split_nl (join_nl [''Summary'', ''Args:'', ''    x: y'']))"
proof -
  have h: "extract_sections (init (join_nl [''Summary'', ''Args:'', ''    x: y'']))
     = Inr ((init (join_nl [''Summary'', ''Args:'', ''    x: y'']))
              \<lparr>priv_sections := [''Summary'', join_nl [''Args:'', ''x: y'']]\<rparr>)"
    by code_simp
  from section_content_nonblank_lines [OF h]
  have e: "sum_list (map (\<lambda>s. nonblank_lines (content_lines s))
         (priv_sections ((init (join_nl [''Summary'', ''Args:'', ''    x: y'']))
              \<lparr>priv_sections := [''Summary'', join_nl [''Args:'', ''x: y'']]\<rparr>)))
       + header_lines (split_nl (join_nl [''Summary'', ''Args:'', ''    x: y'']))
     = nonblank_lines (split_nl (join_nl [''Summary'', ''Args:'', ''    x: y'']))"
    by blast
  from h e show ?thesis by (rule conjI)
qed

section \<open>The missing indent after a header\<close>

lemma get_next_line_loop_all_empty:
  "inc \<le> length lines \<Longrightarrow> \<forall>j. inc \<le> j \<and> j < length lines \<longrightarrow> lines ! j = []
     \<Longrightarrow> get_next_line_loop lines inc = Inr []"
proof (induction lines inc rule: get_next_line_loop.induct)
  case (1 lines inc)
  show ?case
  proof (cases "inc = length lines")
    case True
    then show ?thesis by (subst get_next_line_loop.simps) simp
  next
    case False
    with "1.prems" have lt: "inc < length lines" by simp
    with "1.prems" have e: "lines ! inc = []" by simp
    from lt e "1.prems" have "get_next_line_loop lines (inc + 1) = Inr []"
      by (intro "1.IH") auto
    with lt e show ?thesis by (subst get_next_line_loop.simps) simp
  qed
qed

lemma extract_step_ok:
  assumes "is_header line \<longrightarrow> (\<exists>l. get_next_line lines ln = Inr l \<and> is_indent l)"
  shows "\<exists>s'. extract_step lines ln line s = Inr s'"
  using assms
  by (cases s) (auto simp: extract_step_def err_if_missing_indent_def Let_def)

lemma extract_step_bad:
  assumes "is_header line" and "get_next_line lines ln = Inr l" and "\<not> is_indent l"
  shows "\<exists>msg. extract_step lines ln line s = Inl (SyntaxError msg)"
  using assms
  by (cases s) (auto simp: extract_step_def err_if_missing_indent_def Let_def)

lemma extract_step_either:
  assumes "ln < length lines"
  shows "(\<exists>s'. extract_step lines ln line s = Inr s')
       \<or> (\<exists>msg. extract_step lines ln line s = Inl (SyntaxError msg))"
proof -
  from get_next_line_total [OF assms] obtain l where l: "get_next_line lines ln = Inr l" by blast
  show ?thesis
  proof (cases "is_header line \<and> \<not> is_indent l")
    case True
    with l show ?thesis using extract_step_bad [of line lines ln l s] by blast
  next
    case False
    with l have "is_header line \<longrightarrow> (\<exists>l. get_next_line lines ln = Inr l \<and> is_indent l)" by simp
    then show ?thesis using extract_step_ok [of line lines ln s] by blast
  qed
qed

lemma extract_loop_ok:
  assumes "\<forall>(ln, line)\<in>set rest.
             is_header line \<longrightarrow> (\<exists>l. get_next_line lines ln = Inr l \<and> is_indent l)"
  shows "\<exists>s'. extract_loop lines rest s = Inr s'"
  using assms
proof (induction rest arbitrary: s)
  case Nil
  then show ?case by simp
next
  case (Cons a rest)
  obtain ln line where a: "a = (ln, line)" by (cases a)
  from Cons.prems have h: "is_header line \<longrightarrow> (\<exists>l. get_next_line lines ln = Inr l \<and> is_indent l)"
    and r: "\<forall>(ln, line)\<in>set rest.
             is_header line \<longrightarrow> (\<exists>l. get_next_line lines ln = Inr l \<and> is_indent l)"
    by (simp_all add: a)
  from extract_step_ok [OF h] obtain s1 where st: "extract_step lines ln line s = Inr s1"
    by blast
  from Cons.IH [OF r] obtain s' where "extract_loop lines rest s1 = Inr s'" by blast
  with st show ?case by (simp add: a)
qed

lemma extract_loop_bad:
  assumes "\<forall>(ln, line)\<in>set rest. ln < length lines"
    and "(ln, line) \<in> set rest" and "is_header line"
    and "get_next_line lines ln = Inr l" and "\<not> is_indent l"
  shows "\<exists>msg. extract_loop lines rest s = Inl (SyntaxError msg)"
  using assms(1,2)
proof (induction rest arbitrary: s)
  case Nil
  then show ?case by simp
next
  case (Cons a rest)
  obtain ln' line' where a: "a = (ln', line')" by (cases a)
  with Cons.prems have lt: "ln' < length lines" by simp
  from extract_step_either [OF lt, of line' s] show ?case
  proof
    assume "\<exists>msg. extract_step lines ln' line' s = Inl (SyntaxError msg)"
    then show ?thesis by (auto simp: a)
  next
    assume "\<exists>s1. extract_step lines ln' line' s = Inr s1"
    then obtain s1 where st: "extract_step lines ln' line' s = Inr s1" by blast
    show ?thesis
    proof (cases "(ln, line) = a")
      case True
      with a assms(3-5) extract_step_bad [of line lines ln l s] st show ?thesis by auto
    next
      case False
      with Cons.prems have "(ln, line) \<in> set rest" "\<forall>(ln, line)\<in>set rest. ln < length lines"
        by auto
      from Cons.IH [OF this(2,1)] st show ?thesis by (simp add: a)
    qed
  qed
qed

lemma extract_sections_error_iff:
  fixes self :: GoogleDocString
  defines "lines \<equiv> split_nl (docstring self)"
  shows "(\<exists>ln<length lines. is_header (lines ! ln)
            \<and> (\<exists>l. get_next_line lines ln = Inr l \<and> \<not> is_indent l))
           \<Longrightarrow> \<exists>msg. extract_sections self = Inl (SyntaxError msg)"
    and "(\<forall>ln<length lines. is_header (lines ! ln)
            \<longrightarrow> (\<exists>l. get_next_line lines ln = Inr l \<and> is_indent l))
           \<Longrightarrow> \<exists>self'. extract_sections self = Inr self'"
proof -
  have en: "\<And>p. p \<in> set (enumerate 0 lines) \<longleftrightarrow> fst p < length lines \<and> lines ! fst p = snd p"
    by (auto simp: in_set_enumerate_eq)
  {
    assume "\<exists>ln<length lines. is_header (lines ! ln)
            \<and> (\<exists>l. get_next_line lines ln = Inr l \<and> \<not> is_indent l)"
    then obtain ln l where b: "ln < length lines" "is_header (lines ! ln)"
      "get_next_line lines ln = Inr l" "\<not> is_indent l" by blast
    have "\<forall>(ln, line)\<in>set (enumerate 0 lines). ln < length lines"
      by (auto simp: en)
    moreover from b(1) have "(ln, lines ! ln) \<in> set (enumerate 0 lines)" by (simp add: en)
    ultimately have "\<exists>msg. extract_loop lines (enumerate 0 lines) (True, self) = Inl (SyntaxError msg)"
      using b(2-4) by (rule extract_loop_bad)
    then show "\<exists>msg. extract_sections self = Inl (SyntaxError msg)"
      by (auto simp: extract_sections_def lines_def)
  }
  {
    assume a: "\<forall>ln<length lines. is_header (lines ! ln)
            \<longrightarrow> (\<exists>l. get_next_line lines ln = Inr l \<and> is_indent l)"
    have "\<forall>(ln, line)\<in>set (enumerate 0 lines).
             is_header line \<longrightarrow> (\<exists>l. get_next_line lines ln = Inr l \<and> is_indent l)"
      using a by (auto simp: en)
    then have "\<exists>s'. extract_loop lines (enumerate 0 lines) (True, self) = Inr s'"
      by (rule extract_loop_ok)
    then show "\<exists>self'. extract_sections self = Inr self'"
      by (auto simp: extract_sections_def lines_def)
  }
qed

text \<open>
  Claim C4, as stated, fails when a blank line is one that \<^verbatim>\<open>strip()\<close> empties. After
  \<^verbatim>\<open>Args:\<close> a line of five spaces is the line \<^verbatim>\<open>_get_next_line\<close> finds, and it is
  indented: nothing is raised, although the next non-blank line \<^verbatim>\<open>x: y\<close> is not indented.
  A line of two spaces after \<^verbatim>\<open>Args:\<close> is found too, and it is not indented: the error is
  raised, although the next non-blank line is indented. And \<^verbatim>\<open>Args:\<close> followed by a line
  of four spaces is the last non-blank content of its input, and nothing is raised.
\<close>

theorem missing_indent_blank_line_counterexample:
  "is_header ''Args:''
   \<and> blank ''     '' \<and> \<not> blank ''x: y'' \<and> \<not> is_indent ''x: y''
   \<and> map_sum id priv_sections
         (extract_sections (init (join_nl [''Args:'', ''     '', ''x: y''])))
       = Inr [join_nl [''Args:'', []], ''x: y'']
   \<and> blank ''  '' \<and> \<not> blank ''    x: y'' \<and> is_indent ''    x: y''
   \<and> extract_sections (init (join_nl [''Args:'', ''  '', ''    x: y'']))
       = Inl (SyntaxError ''Missing indent after `  `'')
   \<and> blank ''    ''
   \<and> map_sum id priv_sections (extract_sections (init (join_nl [''Args:'', ''    ''])))
       = Inr [join_nl [''Args:'', []]]"
  by code_simp

text \<open>
  Claim C4, amended. The error that the spec calls MalformedSectionError is the
  \<^verbatim>\<open>SyntaxError\<close> of \<^verbatim>\<open>_err_if_missing_indent\<close>, and the line it tests is the next
  non-empty line, the one \<^verbatim>\<open>_get_next_line\<close> finds: a line of whitespace only is such a
  line. If a header line exists whose next non-empty line is not indented, segmentation
  raises the error; a header line with nothing but empty lines after it, to the end of the
  input, raises it too; and segmentation of a docstring in which the next non-empty line
  of every header is indented raises no error.
\<close>

theorem missing_indent_error:
  assumes "lines = split_nl (docstring self)"
  shows "((\<exists>ln<length lines. is_header (lines ! ln)
             \<and> (\<exists>l. get_next_line lines ln = Inr l \<and> \<not> is_indent l))
           \<longrightarrow> (\<exists>msg. extract_sections self = Inl (SyntaxError msg)))
       \<and> ((\<exists>ln<length lines. is_header (lines ! ln)
             \<and> (\<forall>j. ln < j \<and> j < length lines \<longrightarrow> lines ! j = []))
           \<longrightarrow> (\<exists>msg. extract_sections self = Inl (SyntaxError msg)))
       \<and> ((\<forall>ln<length lines. is_header (lines ! ln)
             \<longrightarrow> (\<exists>l. get_next_line lines ln = Inr l \<and> is_indent l))
           \<longrightarrow> (\<exists>self'. extract_sections self = Inr self'))"
proof (intro conjI impI)
  assume "\<exists>ln<length lines. is_header (lines ! ln)
             \<and> (\<exists>l. get_next_line lines ln = Inr l \<and> \<not> is_indent l)"
  then show "\<exists>msg. extract_sections self = Inl (SyntaxError msg)"
    unfolding assms by (rule extract_sections_error_iff(1))
next
  assume "\<exists>ln<length lines. is_header (lines ! ln)
             \<and> (\<forall>j. ln < j \<and> j < length lines \<longrightarrow> lines ! j = [])"
  then obtain ln where ln: "ln < length lines" "is_header (lines ! ln)"
    and e: "\<forall>j. ln < j \<and> j < length lines \<longrightarrow> lines ! j = []" by blast
  from ln(1) e have "get_next_line lines ln = Inr []"
    unfolding get_next_line_def by (intro get_next_line_loop_all_empty) auto
  moreover have "\<not> is_indent []" by (simp add: is_indent_def get_indent_Nil)
  ultimately have "\<exists>ln<length lines. is_header (lines ! ln)
             \<and> (\<exists>l. get_next_line lines ln = Inr l \<and> \<not> is_indent l)"
    using ln by blast
  then show "\<exists>msg. extract_sections self = Inl (SyntaxError msg)"
    unfolding assms by (rule extract_sections_error_iff(1))
next
  assume "\<forall>ln<length lines. is_header (lines ! ln)
             \<longrightarrow> (\<exists>l. get_next_line lines ln = Inr l \<and> is_indent l)"
  then show "\<exists>self'. extract_sections self = Inr self'"
    unfolding assms by (rule extract_sections_error_iff(2))
qed

theorem missing_indent_error_witness:
  "(\<exists>msg. extract_sections (init (join_nl [''Args:'', ''x: y''])) = Inl (SyntaxError msg))
   \<and> (\<exists>msg. extract_sections (init (join_nl [''Text'', ''Args:'', [], []])) = Inl (SyntaxError msg))
   \<and> (\<exists>self'. extract_sections (init (join_nl [''Args:'', ''    x: y''])) = Inr self')"
proof -
  have l1: "[''Args:'', ''x: y''] = split_nl (docstring (init (join_nl [''Args:'', ''x: y''])))"
    by code_simp
  have l2: "[''Text'', ''Args:'', [], []]
              = split_nl (docstring (init (join_nl [''Text'', ''Args:'', [], []])))"
    by code_simp
  have l3: "[''Args:'', ''    x: y'']
              = split_nl (docstring (init (join_nl [''Args:'', ''    x: y''])))"
    by code_simp
  have hA: "is_header ''Args:''" by code_simp
  have g1: "get_next_line [''Args:'', ''x: y''] 0 = Inr ''x: y''" by code_simp
  have n1: "\<not> is_indent ''x: y''" by code_simp
  have h1: "\<exists>ln<length [''Args:'', ''x: y'']. is_header ([''Args:'', ''x: y''] ! ln)
        \<and> (\<exists>l. get_next_line [''Args:'', ''x: y''] ln = Inr l \<and> \<not> is_indent l)"
    using hA g1 n1 by (intro exI [of _ 0]) simp
  have h2: "\<exists>ln<length [''Text'', ''Args:'', [], []]. is_header ([''Text'', ''Args:'', [], []] ! ln)
        \<and> (\<forall>j. ln < j \<and> j < length [''Text'', ''Args:'', [], []]
               \<longrightarrow> [''Text'', ''Args:'', [], []] ! j = [])"
    using hA by (intro exI [of _ 1]) (auto simp: nth_Cons')
  have nT: "\<not> is_header ''    x: y''" by code_simp
  have g3: "get_next_line [''Args:'', ''    x: y''] 0 = Inr ''    x: y''" by code_simp
  have i3: "is_indent ''    x: y''" by code_simp
  have h3: "\<forall>ln<length [''Args:'', ''    x: y'']. is_header ([''Args:'', ''    x: y''] ! ln)
        \<longrightarrow> (\<exists>l. get_next_line [''Args:'', ''    x: y''] ln = Inr l \<and> is_indent l)"
    using nT g3 i3 by (auto simp: nth_Cons' less_Suc_eq)
  from missing_indent_error [OF l1] h1 missing_indent_error [OF l2] h2
       missing_indent_error [OF l3] h3
  show ?thesis by blast
qed

section \<open>Parsing the same object twice\<close>

text \<open>
  \<open>reused pre d k self\<close> is the object \<open>self\<close> with the sections \<open>pre\<close> of an earlier
  call before its own, and with other values in \<^verbatim>\<open>data\<close> and \<^verbatim>\<open>_linenum\<close>: segmentation
  proceeds on it as on \<open>self\<close>.
\<close>

definition reused ::
  "string list \<Rightarrow> parsed_section list \<Rightarrow> nat \<Rightarrow> GoogleDocString \<Rightarrow> GoogleDocString" where
  "reused pre d k self =
     self\<lparr>priv_sections := pre @ priv_sections self, data := d, priv_linenum := k\<rparr>"

lemma reused_commute:
  "end_section (reused pre d k self) = reused pre d k (end_section self)"
  "begin_section (reused pre d k self) = reused pre d k (begin_section self)"
  "append_line line (reused pre d k self) = reused pre d k (append_line line self)"
  "(reused pre d k self)\<lparr>priv_indent := i\<rparr> = reused pre d k (self\<lparr>priv_indent := i\<rparr>)"
  "priv_indent (reused pre d k self) = priv_indent self"
  by (simp_all add: reused_def end_section_def begin_section_def append_line_def Let_def)

lemma extract_step_reused:
  "extract_step lines ln line (ns, reused pre d k self)
     = map_sum id (apsnd (reused pre d k)) (extract_step lines ln line (ns, self))"
  by (simp add: extract_step_def Let_def reused_commute split: sum.splits)

lemma extract_loop_reused:
  "extract_loop lines rest (ns, reused pre d k self)
     = map_sum id (apsnd (reused pre d k)) (extract_loop lines rest (ns, self))"
proof (induction rest arbitrary: ns self)
  case Nil
  then show ?case by simp
next
  case (Cons a rest)
  obtain ln line where a: "a = (ln, line)" by (cases a)
  show ?case
  proof (cases "extract_step lines ln line (ns, self)")
    case (Inl e)
    then show ?thesis by (simp add: a extract_step_reused)
  next
    case (Inr s1)
    obtain ns1 self1 where s1: "s1 = (ns1, self1)" by (cases s1)
    with Inr Cons.IH [of ns1 self1] show ?thesis by (simp add: a extract_step_reused)
  qed
qed

lemma docstring_reused [simp]: "docstring (reused pre d k self) = docstring self"
  by (simp add: reused_def)

lemma extract_sections_reused:
  "extract_sections (reused pre d k self)
     = map_sum id (reused pre d k) (extract_sections self)"
  by (simp add: extract_sections_def Let_def extract_loop_reused reused_commute
           split: sum.splits prod.splits)

lemma extract_step_frame:
  "extract_step lines ln line (ns, self) = Inr (ns', self') \<Longrightarrow>
     docstring self' = docstring self \<and> data self' = data self
     \<and> priv_linenum self' = priv_linenum self"
  by (auto simp: extract_step_def Let_def append_line_def begin_section_def end_section_def
        split: if_splits sum.splits)

lemma extract_loop_frame:
  "extract_loop lines rest (ns, self) = Inr (ns', self') \<Longrightarrow>
     docstring self' = docstring self \<and> data self' = data self
     \<and> priv_linenum self' = priv_linenum self"
proof (induction rest arbitrary: ns self)
  case Nil
  then show ?case by simp
next
  case (Cons a rest)
  obtain ln line where a: "a = (ln, line)" by (cases a)
  from Cons.prems obtain ns1 self1
    where st: "extract_step lines ln line (ns, self) = Inr (ns1, self1)"
      and lp: "extract_loop lines rest (ns1, self1) = Inr (ns', self')"
    by (auto simp: a split: sum.splits)
  from extract_step_frame [OF st] Cons.IH [OF lp] show ?case by simp
qed

lemma extract_sections_frame:
  assumes "extract_sections self = Inr self'"
  shows "docstring self' = docstring self" and "data self' = data self"
    and "priv_linenum self' = priv_linenum self"
    and "priv_section self' = []" and "priv_indent self' = 0"
proof -
  from assms obtain ns1 self1
    where lp: "extract_loop (split_nl (docstring self)) (enumerate 0 (split_nl (docstring self)))
                 (True, self) = Inr (ns1, self1)"
      and s: "self' = begin_section (end_section self1)"
    by (auto simp: extract_sections_def Let_def split: sum.splits)
  from extract_loop_frame [OF lp]
  show "docstring self' = docstring self" and "data self' = data self"
    and "priv_linenum self' = priv_linenum self"
    and "priv_section self' = []" and "priv_indent self' = 0"
    by (simp_all add: s begin_section_def end_section_def Let_def)
qed

lemma parse_section_indep:
  assumes "parse_section sec self = Inr (out, self')"
  shows "\<exists>k. self' = self\<lparr>priv_linenum := k\<rparr>
           \<and> (\<forall>other. parse_section sec other = Inr (out, other\<lparr>priv_linenum := k\<rparr>))"
  using assms by (auto simp: parse_section_def Let_def split: sum.splits)

lemma parse_all_indep:
  "parse_all secs self = Inr self' \<Longrightarrow>
     \<exists>outs k. self' = self\<lparr>data := data self @ outs, priv_linenum := k\<rparr>
       \<and> (\<forall>other. \<exists>k'. parse_all secs other
                         = Inr (other\<lparr>data := data other @ outs, priv_linenum := k'\<rparr>))"
proof (induction secs arbitrary: self)
  case Nil
  then have "self' = self\<lparr>data := data self @ [], priv_linenum := priv_linenum self\<rparr>" by simp
  moreover have "\<forall>other. \<exists>k'. parse_all [] other
      = Inr (other\<lparr>data := data other @ [], priv_linenum := k'\<rparr>)"
  proof
    fix other :: GoogleDocString
    have "parse_all [] other = Inr (other\<lparr>data := data other @ [], priv_linenum := priv_linenum other\<rparr>)"
      by simp
    then show "\<exists>k'. parse_all [] other = Inr (other\<lparr>data := data other @ [], priv_linenum := k'\<rparr>)" ..
  qed
  ultimately show ?case by blast
next
  case (Cons sec secs)
  from Cons.prems obtain out s1 where ps: "parse_section sec self = Inr (out, s1)"
    and pa: "parse_all secs (s1\<lparr>data := data s1 @ [out]\<rparr>) = Inr self'"
    by (auto split: sum.splits)
  from parse_section_indep [OF ps] obtain k1 where s1: "s1 = self\<lparr>priv_linenum := k1\<rparr>"
    and o1: "\<forall>other. parse_section sec other = Inr (out, other\<lparr>priv_linenum := k1\<rparr>)" by blast
  from Cons.IH [OF pa] obtain outs k where
    r: "self' = (s1\<lparr>data := data s1 @ [out]\<rparr>)\<lparr>data := data (s1\<lparr>data := data s1 @ [out]\<rparr>) @ outs,
                                                    priv_linenum := k\<rparr>"
    and o: "\<forall>other. \<exists>k'. parse_all secs other
                         = Inr (other\<lparr>data := data other @ outs, priv_linenum := k'\<rparr>)" by blast
  from r s1 have "self' = self\<lparr>data := data self @ (out # outs), priv_linenum := k\<rparr>" by simp
  moreover have "\<forall>other. \<exists>k'. parse_all (sec # secs) other
                         = Inr (other\<lparr>data := data other @ (out # outs), priv_linenum := k'\<rparr>)"
  proof
    fix other :: GoogleDocString
    let ?o1 = "(other\<lparr>priv_linenum := k1\<rparr>)\<lparr>data := data (other\<lparr>priv_linenum := k1\<rparr>) @ [out]\<rparr>"
    from o obtain k' where "parse_all secs ?o1 = Inr (?o1\<lparr>data := data ?o1 @ outs, priv_linenum := k'\<rparr>)"
      by blast
    with o1 have "parse_all (sec # secs) other
        = Inr (other\<lparr>data := data other @ (out # outs), priv_linenum := k'\<rparr>)" by simp
    then show "\<exists>k'. parse_all (sec # secs) other
        = Inr (other\<lparr>data := data other @ (out # outs), priv_linenum := k'\<rparr>)" ..
  qed
  ultimately show ?case by blast
qed

lemma parse_all_append:
  "parse_all (xs @ ys) self
     = (case parse_all xs self of Inl e \<Rightarrow> Inl e | Inr s \<Rightarrow> parse_all ys s)"
  by (induction xs arbitrary: self) (auto split: sum.splits)

text \<open>
  Claim C10. \<^verbatim>\<open>parse()\<close> is not idempotent on one object. When the first call on a new
  \<^verbatim>\<open>GoogleDocString\<close> returns, \<^verbatim>\<open>_sections\<close> holds the sections of the docstring and
  \<^verbatim>\<open>extract_sections\<close> of the second call appends them once more, so the second call
  returns the list of the first call twice over, which differs from it unless it is empty.
\<close>

theorem parse_twice_doubles:
  assumes "parse (init doc) = Inr (data1, self1)"
  shows "\<exists>self2. parse self1 = Inr (data1 @ data1, self2)
           \<and> priv_sections self2 = priv_sections self1 @ priv_sections self1
           \<and> (data1 \<noteq> [] \<longrightarrow> data1 @ data1 \<noteq> data1)"
proof -
  have i: "(init doc)\<lparr>data := []\<rparr> = init doc" by (simp add: init_def)
  from assms obtain E where ex: "extract_sections (init doc) = Inr E"
    and pa: "parse_all (priv_sections E) E = Inr self1" and d1: "data1 = data self1"
    by (auto simp: parse_def i split: sum.splits)
  let ?secs = "priv_sections E"
  note fr = extract_sections_frame [OF ex]
  have E: "E = (init doc)\<lparr>priv_sections := ?secs\<rparr>"
    using fr by (simp add: init_def)
  from parse_all_indep [OF pa] obtain outs k where
    s1: "self1 = E\<lparr>data := data E @ outs, priv_linenum := k\<rparr>"
    and o: "\<forall>other. \<exists>k'. parse_all ?secs other
                         = Inr (other\<lparr>data := data other @ outs, priv_linenum := k'\<rparr>)" by blast
  from fr have dE: "data E = []" by (simp add: init_def)
  from s1 d1 dE have outs: "data1 = outs" by simp
  have start: "self1\<lparr>data := []\<rparr> = reused ?secs [] k (init doc)"
    by (subst s1, subst E) (simp add: reused_def init_def)
  let ?E2 = "reused ?secs [] k E"
  have ex2: "extract_sections (self1\<lparr>data := []\<rparr>) = Inr ?E2"
    by (simp add: start extract_sections_reused ex)
  have secs2: "priv_sections ?E2 = ?secs @ ?secs" and d2: "data ?E2 = []"
    by (simp_all add: reused_def)
  from o obtain k1 where p1: "parse_all ?secs ?E2
      = Inr (?E2\<lparr>data := data ?E2 @ outs, priv_linenum := k1\<rparr>)" by blast
  let ?F = "?E2\<lparr>data := data ?E2 @ outs, priv_linenum := k1\<rparr>"
  from o obtain k2 where p2: "parse_all ?secs ?F
      = Inr (?F\<lparr>data := data ?F @ outs, priv_linenum := k2\<rparr>)" by blast
  let ?G = "?F\<lparr>data := data ?F @ outs, priv_linenum := k2\<rparr>"
  have "parse_all (priv_sections ?E2) ?E2 = Inr ?G"
    by (simp only: secs2 parse_all_append p1 p2 sum.case)
  with ex2 have "parse self1 = Inr (data ?G, ?G)"
    by (simp add: parse_def)
  moreover have "data ?G = data1 @ data1" by (simp add: outs reused_def)
  moreover have "priv_sections ?G = priv_sections self1 @ priv_sections self1"
    by (simp add: s1 reused_def)
  ultimately show ?thesis by auto
qed

theorem parse_twice_doubles_witness:
  "\<exists>self2. parse ((init (join_nl [''Summary'', ''Args:'', ''    x: y'']))
                    \<lparr>data := [\<lparr>out_header = [], out_text = ''Summary'', out_args = []\<rparr>,
                              \<lparr>out_header = ''Args'', out_text = [],
                                 out_args = [\<lparr>arg_field = ''x'', arg_signature = [],
                                               arg_description = ''y''\<rparr>]\<rparr>],
                      priv_linenum := 2,
                      priv_sections := [''Summary'', join_nl [''Args:'', ''x: y'']]\<rparr>)
      = Inr ([\<lparr>out_header = [], out_text = ''Summary'', out_args = []\<rparr>,
              \<lparr>out_header = ''Args'', out_text = [],
                 out_args = [\<lparr>arg_field = ''x'', arg_signature = [], arg_description = ''y''\<rparr>]\<rparr>,
              \<lparr>out_header = [], out_text = ''Summary'', out_args = []\<rparr>,
              \<lparr>out_header = ''Args'', out_text = [],
                 out_args = [\<lparr>arg_field = ''x'', arg_signature = [], arg_description = ''y''\<rparr>]\<rparr>],
             self2)"
proof -
  have h: "parse (init (join_nl [''Summary'', ''Args:'', ''    x: y'']))
     = Inr ([\<lparr>out_header = [], out_text = ''Summary'', out_args = []\<rparr>,
              \<lparr>out_header = ''Args'', out_text = [],
                 out_args = [\<lparr>arg_field = ''x'', arg_signature = [], arg_description = ''y''\<rparr>]\<rparr>],
            (init (join_nl [''Summary'', ''Args:'', ''    x: y'']))
                    \<lparr>data := [\<lparr>out_header = [], out_text = ''Summary'', out_args = []\<rparr>,
                              \<lparr>out_header = ''Args'', out_text = [],
                                 out_args = [\<lparr>arg_field = ''x'', arg_signature = [],
                                               arg_description = ''y''\<rparr>]\<rparr>],
                      priv_linenum := 2,
                      priv_sections := [''Summary'', join_nl [''Args:'', ''x: y'']]\<rparr>)"
    by code_simp
  from parse_twice_doubles [OF h] show ?thesis by auto
qed

section \<open>Docstrings without headers\<close>

text \<open>
  \<open>first_indent\<close> is the indent of the first indented line, which is the threshold that
  the first section locks; \<open>no_indent_drop\<close> says that from that line on every line is
  empty or indented at least as much.
\<close>

definition first_indent :: "string list \<Rightarrow> nat" where
  "first_indent lines =
     (case dropWhile (\<lambda>l. \<not> is_indent l) lines of [] \<Rightarrow> 0 | l # _ \<Rightarrow> get_indent l)"

definition no_indent_drop :: "string list \<Rightarrow> bool" where
  "no_indent_drop lines =
     list_all (\<lambda>l. l = [] \<or> first_indent lines \<le> get_indent l)
       (dropWhile (\<lambda>l. \<not> is_indent l) lines)"

lemma extract_step_keep:
  assumes "\<not> is_header line" and "line = [] \<or> priv_indent self \<le> get_indent line"
  shows "extract_step lines ln line (False, self) = Inr (False, append_line line self)"
  using assms by (auto simp: extract_step_def Let_def)

lemma extract_loop_locked:
  assumes "\<forall>(ln, l)\<in>set rest. \<not> is_header l \<and> (l = [] \<or> priv_indent self \<le> get_indent l)"
  shows "\<exists>self'. extract_loop lines rest (False, self) = Inr (False, self')
           \<and> priv_sections self' = priv_sections self \<and> priv_indent self' = priv_indent self"
  using assms
proof (induction rest arbitrary: self)
  case Nil
  then show ?case by simp
next
  case (Cons a rest)
  obtain ln line where a: "a = (ln, line)" by (cases a)
  from Cons.prems have h: "\<not> is_header line" "line = [] \<or> priv_indent self \<le> get_indent line"
    by (simp_all add: a)
  have st: "extract_step lines ln line (False, self) = Inr (False, append_line line self)"
    by (rule extract_step_keep [OF h])
  have k: "priv_indent (append_line line self) = priv_indent self"
    "priv_sections (append_line line self) = priv_sections self"
    by (simp_all add: append_line_def)
  from Cons.prems have "\<forall>(ln, l)\<in>set rest.
      \<not> is_header l \<and> (l = [] \<or> priv_indent (append_line line self) \<le> get_indent l)"
    by (simp add: k)
  from Cons.IH [OF this] st k show ?case by (simp add: a)
qed

lemma no_indent_drop_Cons_indented:
  assumes "is_indent l" and "no_indent_drop (l # ls)"
  shows "\<forall>x\<in>set ls. x = [] \<or> get_indent l \<le> get_indent x"
  using assms by (simp add: no_indent_drop_def first_indent_def list_all_iff)

lemma no_indent_drop_Cons_plain:
  assumes "\<not> is_indent l" and "no_indent_drop (l # ls)"
  shows "no_indent_drop ls"
  using assms by (simp add: no_indent_drop_def first_indent_def)

lemma extract_loop_no_drop:
  assumes "\<forall>(ln, l)\<in>set rest. \<not> is_header l" and "no_indent_drop (map snd rest)"
    and "priv_indent self = 0"
  shows "\<exists>ns' self'. extract_loop lines rest (True, self) = Inr (ns', self')
           \<and> priv_sections self' = priv_sections self"
  using assms
proof (induction rest arbitrary: self)
  case Nil
  then show ?case by auto
next
  case (Cons a rest)
  obtain ln line where a: "a = (ln, line)" by (cases a)
  from Cons.prems(1) have nh: "\<not> is_header line" and nhr: "\<forall>(ln, l)\<in>set rest. \<not> is_header l"
    by (simp_all add: a)
  from Cons.prems(2) have nd: "no_indent_drop (line # map snd rest)" by (simp add: a)
  show ?case
  proof (cases "is_indent line")
    case True
    let ?s = "append_line line (self\<lparr>priv_indent := get_indent line\<rparr>)"
    from True nh have st: "extract_step lines ln line (True, self) = Inr (False, ?s)"
      by (simp add: extract_step_def Let_def)
    have k: "priv_indent ?s = get_indent line" "priv_sections ?s = priv_sections self"
      by (simp_all add: append_line_def)
    from no_indent_drop_Cons_indented [OF True nd] nhr
    have "\<forall>(ln, l)\<in>set rest. \<not> is_header l \<and> (l = [] \<or> priv_indent ?s \<le> get_indent l)"
      by (force simp: k)
    from extract_loop_locked [OF this, of lines] st k show ?thesis by (auto simp: a)
  next
    case False
    let ?s = "append_line line self"
    from False nh Cons.prems(3) have st: "extract_step lines ln line (True, self) = Inr (True, ?s)"
      by (simp add: extract_step_def Let_def)
    have k: "priv_indent ?s = 0" "priv_sections ?s = priv_sections self"
      using Cons.prems(3) by (simp_all add: append_line_def)
    from Cons.IH [OF nhr no_indent_drop_Cons_plain [OF False nd] k(1)] st k show ?thesis
      by (auto simp: a)
  qed
qed

lemma blank_docstring_lines: "blank doc \<longleftrightarrow> nonblank_lines (split_nl doc) = 0"
proof -
  have "blank doc \<longleftrightarrow> blank (join_nl (split_nl doc))" by (simp add: join_nl_split_nl)
  also have "\<dots> \<longleftrightarrow> (\<forall>l\<in>set (split_nl doc). blank l)" by (rule blank_join_nl)
  also have "\<dots> \<longleftrightarrow> nonblank_lines (split_nl doc) = 0"
    by (auto simp: nonblank_lines_def filter_empty_conv)
  finally show ?thesis .
qed

text \<open>
  Claim C1, as stated, fails: the empty docstring has no header and gives no section, and
  the two lines \<^verbatim>\<open>    a\<close> and \<^verbatim>\<open>b\<close>, neither a header, give two sections, the second
  one started by the drop of the indent.
\<close>

theorem headerless_sections_counterexample:
  "\<not> is_header [] \<and> extract_sections (init []) = Inr (init [])
   \<and> priv_sections (init []) = []
   \<and> \<not> is_header ''    a'' \<and> \<not> is_header ''b''
   \<and> extract_sections (init (join_nl [''    a'', ''b'']))
       = Inr ((init (join_nl [''    a'', ''b'']))\<lparr>priv_sections := [''a'', ''b'']\<rparr>)"
  by code_simp

text \<open>
  Claim C1, amended. For every docstring in which no line matches a header, segmentation
  raises no error and every emitted section has the empty header. Exactly one section is
  emitted when, moreover, the docstring is not blank and no non-empty line after the first
  indented line is indented less than that line.
\<close>

theorem headerless_sections:
  assumes "list_all (\<lambda>l. \<not> is_header l) (split_nl doc)"
  shows "\<exists>self'. extract_sections (init doc) = Inr self'
           \<and> list_all (\<lambda>s. get_header (split_nl s ! 0) = []) (priv_sections self')
           \<and> (\<not> blank doc \<and> no_indent_drop (split_nl doc)
                \<longrightarrow> length (priv_sections self') = 1)"
proof -
  let ?lines = "split_nl doc"
  from assms have nh: "\<forall>l\<in>set ?lines. \<not> is_header l" by (simp add: list_all_iff)
  then have hl: "header_lines ?lines = 0" by (simp add: header_lines_def)
  have d: "docstring (init doc) = doc" by (simp add: init_def)
  from nh have "\<forall>ln<length ?lines. is_header (?lines ! ln)
      \<longrightarrow> (\<exists>l. get_next_line ?lines ln = Inr l \<and> is_indent l)" by simp
  then obtain self' where ex: "extract_sections (init doc) = Inr self'"
    using extract_sections_error_iff(2) [of "init doc"] by (auto simp: d)
  note m = extract_sections_measures [OF well_formed_init ex]
  from m(2,4) hl have "filter (\<lambda>s. is_header (split_nl s ! 0)) (priv_sections self') = []"
    by (simp add: stored_headers_def init_def)
  then have hdr: "list_all (\<lambda>s. get_header (split_nl s ! 0) = []) (priv_sections self')"
    using get_header_nonempty_iff by (auto simp: filter_empty_conv list_all_iff)
  have one: "length (priv_sections self') = 1" if nb: "\<not> blank doc" and nd: "no_indent_drop ?lines"
  proof -
    have nhe: "\<forall>(ln, l)\<in>set (enumerate 0 ?lines). \<not> is_header l"
      using nh by (auto simp: in_set_enumerate_eq)
    have nde: "no_indent_drop (map snd (enumerate 0 ?lines))" using nd by simp
    have i0: "priv_indent (init doc) = 0" by (simp add: init_def)
    from extract_loop_no_drop [OF nhe nde i0, of ?lines] obtain ns1 self1
      where lp: "extract_loop ?lines (enumerate 0 ?lines) (True, init doc) = Inr (ns1, self1)"
        and secs: "priv_sections self1 = priv_sections (init doc)" by blast
    have nonl: "\<forall>l\<in>set (map snd (enumerate 0 ?lines)). nl \<notin> set l"
      by (auto simp: split_nl_def dest: split_chr_no_sep_in_pieces)
    from extract_loop_measures [OF well_formed_init nonl lp]
    have "stored_nonblank self1 = stored_nonblank (init doc) + nonblank_lines ?lines" by simp
    with secs have "nonblank_lines (priv_section self1) = nonblank_lines ?lines"
      by (simp add: stored_nonblank_def init_def nonblank_lines_def)
    with nb have "nonblank_lines (priv_section self1) \<noteq> 0"
      by (simp add: blank_docstring_lines)
    then have "\<not> (\<forall>l\<in>set (priv_section self1). blank l)"
      by (auto simp: nonblank_lines_def filter_empty_conv)
    then have "\<not> blank (join_nl (priv_section self1))" by (simp add: blank_join_nl)
    then have "priv_sections (end_section self1) = [join_nl (priv_section self1)]"
      using secs by (simp add: end_section_def blank_def init_def)
    moreover from ex lp have "self' = begin_section (end_section self1)"
      by (simp add: extract_sections_def d)
    ultimately show ?thesis by (simp add: begin_section_def)
  qed
  from ex hdr one show ?thesis by blast
qed

theorem headerless_sections_witness:
  "\<exists>self'. extract_sections (init (join_nl [''Summary'', ''    more'', [], ''     end''])) = Inr self'
           \<and> list_all (\<lambda>s. get_header (split_nl s ! 0) = []) (priv_sections self')
           \<and> length (priv_sections self') = 1"
proof -
  have h: "list_all (\<lambda>l. \<not> is_header l)
             (split_nl (join_nl [''Summary'', ''    more'', [], ''     end'']))"
    by code_simp
  have b: "\<not> blank (join_nl [''Summary'', ''    more'', [], ''     end''])" by code_simp
  have n: "no_indent_drop (split_nl (join_nl [''Summary'', ''    more'', [], ''     end'']))"
    by code_simp
  from headerless_sections [OF h] b n show ?thesis by blast
qed

end
